theory Spec2Isabelle
  imports Complex_Main "HOL-Library.Sublist"
begin

section \<open>Python values and exceptions\<close>

text \<open>
  The readers of \<^verbatim>\<open>postqe/readutils.py\<close> raise the built-in exceptions of Python and
  of numpy. Every one of them is a value here; a function that can raise returns
  \<open>error + 'a\<close>, with \<open>Inl\<close> for the exception.
\<close>

datatype error = KeyError | TypeError | ValueError | IndexError | AttributeError | OverflowError | ParseError

definition ebind :: "error + 'a \<Rightarrow> ('a \<Rightarrow> error + 'b) \<Rightarrow> error + 'b" where
  "ebind m f = (case m of Inl e \<Rightarrow> Inl e | Inr v \<Rightarrow> f v)"

section \<open>Three-dimensional numpy arrays\<close>

text \<open>
  A three-dimensional \<^verbatim>\<open>ndarray\<close> is its shape together with its cells, addressed
  \<open>cells a ! x ! y ! z\<close>. The shape is kept beside the cells because numpy keeps it
  also when an axis has length zero.
\<close>

record 'a ndarray =
  shape :: "nat \<times> nat \<times> nat"
  cells :: "'a list list list"

definition wf_array :: "'a ndarray \<Rightarrow> bool" where
  "wf_array a = (case shape a of (n1, n2, n3) \<Rightarrow>
     length (cells a) = n1 \<and>
     (\<forall>p \<in> set (cells a). length p = n2 \<and> (\<forall>r \<in> set p. length r = n3)))"

definition cell :: "'a ndarray \<Rightarrow> nat \<times> nat \<times> nat \<Rightarrow> 'a" where
  "cell a p = (case p of (x, y, z) \<Rightarrow> cells a ! x ! y ! z)"

definition in_shape :: "nat \<times> nat \<times> nat \<Rightarrow> nat \<times> nat \<times> nat \<Rightarrow> bool" where
  "in_shape s p = (case (s, p) of ((n1, n2, n3), (x, y, z)) \<Rightarrow> x < n1 \<and> y < n2 \<and> z < n3)"

text \<open>\<^verbatim>\<open>np.zeros([n1,n2,n3])\<close>: a negative length is a \<^verbatim>\<open>ValueError\<close>.\<close>

definition np_zeros :: "int \<times> int \<times> int \<Rightarrow> error + ('a::zero) ndarray" where
  "np_zeros nr = (case nr of (n1, n2, n3) \<Rightarrow>
     if n1 < 0 \<or> n2 < 0 \<or> n3 < 0 then Inl ValueError
     else Inr \<lparr>shape = (nat n1, nat n2, nat n3),
               cells = replicate (nat n1) (replicate (nat n2) (replicate (nat n3) 0))\<rparr>)"

text \<open>
  numpy's treatment of one integer index on an axis of length \<open>n\<close>: an index in
  \<open>[0, n)\<close> is used as it is, an index in \<open>[-n, 0)\<close> counts from the end, any other one
  is an \<^verbatim>\<open>IndexError\<close>.
\<close>

definition axis_index :: "nat \<Rightarrow> int \<Rightarrow> error + nat" where
  "axis_index n i =
     (if 0 \<le> i \<and> i < int n then Inr (nat i)
      else if - int n \<le> i \<and> i < 0 then Inr (nat (i + int n))
      else Inl IndexError)"

text \<open>\<^verbatim>\<open>a[i,j,k] = v\<close>\<close>

definition setitem :: "'a ndarray \<Rightarrow> int \<times> int \<times> int \<Rightarrow> 'a \<Rightarrow> error + 'a ndarray" where
  "setitem a p v = (case (shape a, p) of ((n1, n2, n3), (i, j, k)) \<Rightarrow>
     ebind (axis_index n1 i) (\<lambda>x.
     ebind (axis_index n2 j) (\<lambda>y.
     ebind (axis_index n3 k) (\<lambda>z.
       Inr (a\<lparr>cells := (cells a)[x := (cells a ! x)[y := (cells a ! x ! y)[z := v]]]\<rparr>)))))"

section \<open>The scatter step of \<^verbatim>\<open>read_charge_file_hdf5\<close>\<close>

text \<open>
  \<^verbatim>\<open>
  for el in zip(h5f['MillerIndices'], rhotot_g):
      (i,j,k), rho = el
      rho_temp[i,j,k] = rho
  \<close>
  The loop stops at the first index that numpy rejects.
\<close>

fun scatter_loop :: "'a ndarray \<Rightarrow> ((int \<times> int \<times> int) \<times> 'a) list \<Rightarrow> error + 'a ndarray" where
  "scatter_loop a [] = Inr a"
| "scatter_loop a (el # els) =
     (case el of (p, rho) \<Rightarrow>
        (case setitem a p rho of Inl e \<Rightarrow> Inl e | Inr a' \<Rightarrow> scatter_loop a' els))"

text \<open>The words of the specification: an index fits an axis, and where it lands.\<close>

definition fits :: "nat \<times> nat \<times> nat \<Rightarrow> int \<times> int \<times> int \<Rightarrow> bool" where
  "fits s p = (case (s, p) of ((n1, n2, n3), (i, j, k)) \<Rightarrow>
     - int n1 \<le> i \<and> i < int n1 \<and> - int n2 \<le> j \<and> j < int n2 \<and> - int n3 \<le> k \<and> k < int n3)"

definition wrap :: "nat \<times> nat \<times> nat \<Rightarrow> int \<times> int \<times> int \<Rightarrow> nat \<times> nat \<times> nat" where
  "wrap s p = (case (s, p) of ((n1, n2, n3), (i, j, k)) \<Rightarrow>
     (nat (i mod int n1), nat (j mod int n2), nat (k mod int n3)))"

text \<open>
  The last coefficient written to each cell: the pairs are looked up from the end of the
  list, by the cell their index lands on.
\<close>

definition last_write :: "nat \<times> nat \<times> nat \<Rightarrow> ((int \<times> int \<times> int) \<times> 'a) list \<Rightarrow>
    nat \<times> nat \<times> nat \<Rightarrow> 'a option" where
  "last_write s els = map_of (rev (map (\<lambda>el. (wrap s (fst el), snd el)) els))"

section \<open>The charge reconstruction \<^verbatim>\<open>read_charge_file_hdf5\<close>\<close>

text \<open>An operation on every cell, as \<^verbatim>\<open>a * n\<close> and \<^verbatim>\<open>a.real\<close> are.\<close>

definition map_array :: "('a \<Rightarrow> 'b) \<Rightarrow> 'a ndarray \<Rightarrow> 'b ndarray" where
  "map_array f a = \<lparr>shape = shape a, cells = map (map (map f)) (cells a)\<rparr>"

text \<open>
  \<^verbatim>\<open>np.fft.ifftn\<close> over all three axes, as numpy documents it: the inverse discrete
  Fourier transform with the factor \<open>1/(n1 n2 n3)\<close>, over exact complex numbers. An axis
  of length zero is a \<^verbatim>\<open>ValueError\<close> (no data points).
\<close>

definition ifftn :: "complex ndarray \<Rightarrow> error + complex ndarray" where
  "ifftn a = (case shape a of (n1, n2, n3) \<Rightarrow>
     if n1 = 0 \<or> n2 = 0 \<or> n3 = 0 then Inl ValueError
     else Inr \<lparr>shape = (n1, n2, n3),
        cells = map (\<lambda>x. map (\<lambda>y. map (\<lambda>z.
          (\<Sum>u\<leftarrow>[0..<n1]. \<Sum>v\<leftarrow>[0..<n2]. \<Sum>w\<leftarrow>[0..<n3].
             cell a (u, v, w) *
             cis (2 * pi * (real u * real x / real n1 + real v * real y / real n2
                            + real w * real z / real n3)))
          / of_nat (n1 * n2 * n3)) [0..<n3]) [0..<n2]) [0..<n1]\<rparr>)"

text \<open>
  The container of the charge: the attribute \<^verbatim>\<open>ngm_g\<close> and the three datasets the
  function reads. A dataset that the file does not hold is \<open>None\<close>; the two charge
  datasets are flat sequences of reals, real and imaginary part in turn.
\<close>

record h5file =
  ngm_g :: "int option"
  MillerIndices :: "(int \<times> int \<times> int) list option"
  rhotot_g :: "real list option"
  rhodiff_g :: "real list option"

fun pairs :: "'a list \<Rightarrow> ('a \<times> 'a) list" where
  "pairs (a # b # xs) = (a, b) # pairs xs"
| "pairs _ = []"

text \<open>
  \<^verbatim>\<open>np.array(ds).reshape([ngm_g,2])\<close>: an absent attribute is \<^verbatim>\<open>None\<close> and a
  \<^verbatim>\<open>TypeError\<close>; the length \<open>-1\<close> is inferred by numpy from the size; any other
  length must give the size of the data.
\<close>

definition reshape_pairs :: "int option \<Rightarrow> real list \<Rightarrow> error + (real \<times> real) list" where
  "reshape_pairs n xs = (case n of
       None \<Rightarrow> Inl TypeError
     | Some n \<Rightarrow>
         if n = - 1 then (if even (length xs) then Inr (pairs xs) else Inl ValueError)
         else if n < 0 then Inl ValueError
         else if 2 * n = int (length xs) then Inr (pairs xs)
         else Inl ValueError)"

text \<open>
  \<^verbatim>\<open>
  aux = np.array(h5f[name]).reshape([ngm_g,2])
  rho_g = np.array(list(map(lambda x: x.dot((1e0,1.j)), aux)))
  \<close>
\<close>

definition read_coefficients :: "int option \<Rightarrow> real list option \<Rightarrow> error + complex list" where
  "read_coefficients n ds = (case ds of
       None \<Rightarrow> Inl KeyError
     | Some xs \<Rightarrow> ebind (reshape_pairs n xs) (\<lambda>aux. Inr (map (\<lambda>x. Complex (fst x) (snd x)) aux)))"

text \<open>
  \<^verbatim>\<open>
  rho_temp = np.zeros([nr1,nr2,nr3],dtype=np.complex128)
  for el in zip(h5f['MillerIndices'], rho_g): ...
  rho_r = np.fft.ifftn(rho_temp) * nr1 * nr2 * nr3
  \<close>
\<close>

definition reconstruct ::
  "int \<times> int \<times> int \<Rightarrow> (int \<times> int \<times> int) list option \<Rightarrow> complex list \<Rightarrow> error + complex ndarray" where
  "reconstruct nr mill rho_g = (case nr of (nr1, nr2, nr3) \<Rightarrow>
     ebind (np_zeros nr) (\<lambda>rho_temp.
       case mill of
         None \<Rightarrow> Inl KeyError
       | Some idx \<Rightarrow>
           ebind (scatter_loop rho_temp (zip idx rho_g)) (\<lambda>rho_temp.
           ebind (ifftn rho_temp) (\<lambda>r.
             Inr (map_array (\<lambda>c. c * of_int nr1 * of_int nr2 * of_int nr3) r)))))"

definition read_charge_file_hdf5 ::
  "h5file \<Rightarrow> int \<times> int \<times> int \<Rightarrow> error + (real ndarray \<times> real ndarray)" where
  "read_charge_file_hdf5 h5f nr =
     ebind (read_coefficients (ngm_g h5f) (rhotot_g h5f)) (\<lambda>rhotot_g.
     ebind (reconstruct nr (MillerIndices h5f) rhotot_g) (\<lambda>rhotot_r.
     ebind (case ebind (read_coefficients (ngm_g h5f) (rhodiff_g h5f))
                       (reconstruct nr (MillerIndices h5f)) of
              Inr rhodiff_r \<Rightarrow> Inr rhodiff_r
            | Inl e \<Rightarrow> np_zeros nr) (\<lambda>rhodiff_r.
       Inr (map_array Re rhotot_r, map_array Re rhodiff_r))))"

text \<open>
  The words of the specification: the grid is a function of the position, zero
  everywhere, and each pair in turn sets the cell of its index; the inverse transform
  is the sum over the grid.
\<close>

definition spec_scatter ::
  "nat \<times> nat \<times> nat \<Rightarrow> (int \<times> int \<times> int) list \<Rightarrow> complex list \<Rightarrow> nat \<times> nat \<times> nat \<Rightarrow> complex" where
  "spec_scatter s idx coefs = fold (\<lambda>el g. g(wrap s (fst el) := snd el)) (zip idx coefs) (\<lambda>q. 0)"

definition spec_idft3 ::
  "nat \<times> nat \<times> nat \<Rightarrow> (nat \<times> nat \<times> nat \<Rightarrow> complex) \<Rightarrow> nat \<times> nat \<times> nat \<Rightarrow> complex" where
  "spec_idft3 s g q = (case (s, q) of ((n1, n2, n3), (x, y, z)) \<Rightarrow>
     (\<Sum>u<n1. \<Sum>v<n2. \<Sum>w<n3.
        g (u, v, w) * cis (2 * pi * (real u * real x / real n1 + real v * real y / real n2
                                    + real w * real z / real n3)))
     / of_nat (n1 * n2 * n3))"

definition spec_field ::
  "nat \<times> nat \<times> nat \<Rightarrow> (int \<times> int \<times> int) list \<Rightarrow> complex list \<Rightarrow> nat \<times> nat \<times> nat \<Rightarrow> real" where
  "spec_field s idx coefs q = (case s of (n1, n2, n3) \<Rightarrow>
     Re (spec_idft3 s (spec_scatter s idx coefs) q * of_nat (n1 * n2 * n3)))"

definition flatten :: "complex list \<Rightarrow> real list" where
  "flatten cs = concat (map (\<lambda>c. [Re c, Im c]) cs)"

section \<open>Python strings, \<^verbatim>\<open>int()\<close> and the format \<^verbatim>\<open>{:.9E}\<close>\<close>

text \<open>
  A text file is the string of its characters, as Python hands them over after the
  translation of line ends to \<open>\<newline>\<close>; characters are the code points below 256.
  \<^verbatim>\<open>str.split()\<close> cuts at runs of white space, which in this range are the characters
  9 to 13, 28 to 32, 133 and 160.
\<close>

definition is_space :: "char \<Rightarrow> bool" where
  "is_space c = (c \<in> set [CHR '' '', CHR 0x09, CHR 0x0A, CHR 0x0B, CHR 0x0C, CHR 0x0D,
                            CHR 0x1C, CHR 0x1D, CHR 0x1E, CHR 0x1F, CHR 0x85, CHR 0xA0])"

fun split_ws :: "string \<Rightarrow> string list" where
  "split_ws [] = []"
| "split_ws (c # cs) =
     (if is_space c then split_ws cs
      else if cs = [] \<or> is_space (hd cs) then [c] # split_ws cs
      else (case split_ws cs of [] \<Rightarrow> [[c]] | t # ts \<Rightarrow> (c # t) # ts))"

text \<open>
  \<^verbatim>\<open>for line in lines\<close>: the lines of the file, each with the \<open>\<newline>\<close> that ends it; the
  last one has none when the file does not end with \<open>\<newline>\<close>.
\<close>

fun file_lines :: "string \<Rightarrow> string list" where
  "file_lines [] = []"
| "file_lines (c # cs) =
     (if c = CHR 0x0A then [c] # file_lines cs
      else (case file_lines cs of [] \<Rightarrow> [[c]] | l # ls \<Rightarrow> (c # l) # ls))"

text \<open>
  \<^verbatim>\<open>int(token)\<close> on a token without white space: an optional sign and decimal digits,
  where single underscores may stand between digits. \<open>None\<close> is the \<^verbatim>\<open>ValueError\<close>.
\<close>

definition is_digit :: "char \<Rightarrow> bool" where
  "is_digit c = (c \<in> set ''0123456789'')"

definition digit_val :: "char \<Rightarrow> nat" where
  "digit_val c = of_char c - 48"

fun int_digits :: "nat \<Rightarrow> bool \<Rightarrow> string \<Rightarrow> nat option" where
  "int_digits acc prev [] = (if prev then Some acc else None)"
| "int_digits acc prev (c # cs) =
     (if is_digit c then int_digits (10 * acc + digit_val c) True cs
      else if c = CHR ''_'' \<and> prev then int_digits acc False cs
      else None)"

definition py_int :: "string \<Rightarrow> int option" where
  "py_int s = (case s of
       [] \<Rightarrow> None
     | c # cs \<Rightarrow>
         if c = CHR ''-'' then map_option (\<lambda>n. - int n) (int_digits 0 False cs)
         else if c = CHR ''+'' then map_option int (int_digits 0 False cs)
         else map_option int (int_digits 0 False s))"

text \<open>
  \<^verbatim>\<open>"{:.9E}".format(v)\<close> for a finite \<open>v\<close>, over exact reals: the decimal exponent \<open>e\<close>
  with \<open>10^e \<le> |v| < 10^(e+1)\<close>, the mantissa rounded to ten significant digits
  (a tie goes to the even digit), one digit before the point and nine after it, then
  \<open>E\<close>, the sign of the exponent and at least two digits of it.
\<close>

definition digit_char :: "nat \<Rightarrow> char" where
  "digit_char d = ''0123456789'' ! d"

fun dec_string :: "nat \<Rightarrow> string" where
  "dec_string n = (if n < 10 then [digit_char n] else dec_string (n div 10) @ [digit_char (n mod 10)])"

fun ndigits :: "nat \<Rightarrow> nat" where
  "ndigits n = (if n < 10 then 1 else Suc (ndigits (n div 10)))"

declare dec_string.simps [simp del] ndigits.simps [simp del]

definition dec_exp :: "real \<Rightarrow> int" where
  "dec_exp a = (if 1 \<le> a then int (ndigits (nat \<lfloor>a\<rfloor>)) - 1
                else - int (ndigits (nat (\<lceil>1 / a\<rceil> - 1))))"

definition round_half_even :: "real \<Rightarrow> int" where
  "round_half_even x =
     (if x - of_int \<lfloor>x\<rfloor> < 1 / 2 then \<lfloor>x\<rfloor>
      else if 1 / 2 < x - of_int \<lfloor>x\<rfloor> then \<lfloor>x\<rfloor> + 1
      else if even \<lfloor>x\<rfloor> then \<lfloor>x\<rfloor> else \<lfloor>x\<rfloor> + 1)"

definition sci_round :: "real \<Rightarrow> nat \<times> int" where
  "sci_round a =
     (if a = 0 then (0, 0)
      else let e = dec_exp a; m = nat (round_half_even (a * 10 powi (9 - e)))
           in if m = 10 ^ 10 then (10 ^ 9, e + 1) else (m, e))"

definition exp_string :: "int \<Rightarrow> string" where
  "exp_string e = (if e < 0 then ''-'' else ''+'') @
     (if \<bar>e\<bar> < 10 then ''0'' else []) @ dec_string (nat \<bar>e\<bar>)"

definition format_9E :: "real \<Rightarrow> string" where
  "format_9E v = (case sci_round \<bar>v\<bar> of (m, e) \<Rightarrow>
     (if v < 0 then ''-'' else []) @ [digit_char (m div 10 ^ 9 mod 10)] @ ''.'' @
     map (\<lambda>k. digit_char (m div 10 ^ k mod 10)) [8, 7, 6, 5, 4, 3, 2, 1, 0] @
     ''E'' @ exp_string e)"

text \<open>The number that the text \<open>format_9E v\<close> denotes.\<close>

definition sci_value :: "real \<Rightarrow> real" where
  "sci_value v = (case sci_round \<bar>v\<bar> of (m, e) \<Rightarrow> sgn v * of_nat m * 10 powi (e - 9))"

text \<open>
  \<^verbatim>\<open>float(token)\<close> is a parameter \<open>pyfloat\<close> of the reader, \<open>None\<close> being its
  \<^verbatim>\<open>ValueError\<close>. Its part on plain decimal literals (sign, digits, an optional
  fraction, an optional exponent), read exactly, is \<open>decimal_float\<close>.
\<close>

definition digits_value :: "string \<Rightarrow> nat" where
  "digits_value ds = foldl (\<lambda>a c. 10 * a + digit_val c) 0 ds"

definition signed_digits :: "string \<Rightarrow> int option" where
  "signed_digits s = (case s of
       [] \<Rightarrow> None
     | c # cs \<Rightarrow>
         if c = CHR ''-'' then (if cs \<noteq> [] \<and> list_all is_digit cs then Some (- int (digits_value cs)) else None)
         else if c = CHR ''+'' then (if cs \<noteq> [] \<and> list_all is_digit cs then Some (int (digits_value cs)) else None)
         else if list_all is_digit s then Some (int (digits_value s)) else None)"

definition decimal_float :: "string \<Rightarrow> real option" where
  "decimal_float s =
     (let neg = (s \<noteq> [] \<and> hd s = CHR ''-'');
          body = (if s \<noteq> [] \<and> (hd s = CHR ''-'' \<or> hd s = CHR ''+'') then tl s else s);
          mant = takeWhile (\<lambda>c. c \<noteq> CHR ''E'' \<and> c \<noteq> CHR ''e'') body;
          rest = dropWhile (\<lambda>c. c \<noteq> CHR ''E'' \<and> c \<noteq> CHR ''e'') body;
          ip = takeWhile is_digit mant;
          after = dropWhile is_digit mant;
          fp = (if after \<noteq> [] \<and> hd after = CHR ''.'' then tl after else after)
      in if \<not> list_all is_digit fp \<or> ip @ fp = [] then None
         else (case (if rest = [] then Some 0 else signed_digits (tl rest)) of
                 None \<Rightarrow> None
               | Some ex \<Rightarrow>
                   Some ((if neg then - 1 else 1) * real (digits_value (ip @ fp))
                           * 10 powi (ex - int (length fp)))))"

section \<open>The text codec: \<^verbatim>\<open>write_charge\<close> and \<^verbatim>\<open>read_postqe_output_file\<close>\<close>

text \<open>
  The order of the three nested loops of both functions,
  \<^verbatim>\<open>for z in range(0,nr[2]): for y in range(0,nr[1]): for x in range(0,nr[0])\<close>,
  as the list of the positions they visit.
\<close>

definition loop_order :: "nat \<times> nat \<times> nat \<Rightarrow> (nat \<times> nat \<times> nat) list" where
  "loop_order s = (case s of (n1, n2, n3) \<Rightarrow>
     concat (map (\<lambda>z. concat (map (\<lambda>y. map (\<lambda>x. (x, y, z)) [0..<n1]) [0..<n2])) [0..<n3]))"

text \<open>
  \<^verbatim>\<open>
  fout.write("  {:.9E}".format(charge[x,y,z]))
  count += 1
  if (count%5==0):
      fout.write("\n")
  \<close>
  The writer returns the text of the file it leaves behind.
\<close>

fun write_values :: "nat \<Rightarrow> real list \<Rightarrow> string" where
  "write_values cnt [] = []"
| "write_values cnt (v # vs) =
     ''  '' @ format_9E v @ (if (cnt + 1) mod 5 = 0 then [CHR 0x0A] else []) @
     write_values (cnt + 1) vs"

definition write_charge :: "string \<Rightarrow> real ndarray \<Rightarrow> string" where
  "write_charge header charge =
     header @ write_values 0 (map (cell charge) (loop_order (shape charge)))"

text \<open>
  The reader keeps the line count, the dimensions \<^verbatim>\<open>nr\<close> (an array of three 64-bit
  integers, zero at first) and the values read so far.
  \<^verbatim>\<open>nr[0] = int(linesplit[1])\<close> needs the token (\<^verbatim>\<open>IndexError\<close>), an integer in it
  (\<^verbatim>\<open>ValueError\<close>) that fits 64 bits (\<^verbatim>\<open>OverflowError\<close>).
\<close>

definition nr_item :: "string list \<Rightarrow> nat \<Rightarrow> error + int" where
  "nr_item linesplit i =
     (if i < length linesplit then
        (case py_int (linesplit ! i) of
           None \<Rightarrow> Inl ValueError
         | Some v \<Rightarrow> if - (2 ^ 63) \<le> v \<and> v < 2 ^ 63 then Inr v else Inl OverflowError)
      else Inl IndexError)"

definition read_nr :: "string list \<Rightarrow> error + int \<times> int \<times> int" where
  "read_nr linesplit =
     ebind (nr_item linesplit 1) (\<lambda>a.
     ebind (nr_item linesplit 2) (\<lambda>b.
     ebind (nr_item linesplit 3) (\<lambda>c. Inr (a, b, c))))"

record 'v reader =
  count :: nat
  nr :: "int \<times> int \<times> int"
  tempcharge :: "'v list"

fun floats :: "(string \<Rightarrow> 'v option) \<Rightarrow> string list \<Rightarrow> error + 'v list" where
  "floats pyfloat [] = Inr []"
| "floats pyfloat (t # ts) =
     (case pyfloat t of
        None \<Rightarrow> Inl ValueError
      | Some v \<Rightarrow> ebind (floats pyfloat ts) (\<lambda>vs. Inr (v # vs)))"

text \<open>
  The body of the loop over the lines:
  \<^verbatim>\<open>
  linesplit=line.split()
  if count==1:
      nr[0] = int(linesplit[1]); nr[1] = int(linesplit[2]); nr[2] = int(linesplit[3])
  if linesplit[0]!='#':
      for j in range(0,len(linesplit)):
          tempcharge.append(float(linesplit[j]))
  count += 1
  \<close>
  A line without a token is an \<^verbatim>\<open>IndexError\<close> at \<^verbatim>\<open>linesplit[0]\<close>.
\<close>

definition read_line :: "(string \<Rightarrow> 'v option) \<Rightarrow> 'v reader \<Rightarrow> string \<Rightarrow> error + 'v reader" where
  "read_line pyfloat st line = (let linesplit = split_ws line in
     ebind (if count st = 1 then read_nr linesplit else Inr (nr st)) (\<lambda>nr'.
     if linesplit = [] then Inl IndexError
     else ebind (if hd linesplit \<noteq> ''#'' then floats pyfloat linesplit else Inr []) (\<lambda>vs.
            Inr \<lparr>count = count st + 1, nr = nr', tempcharge = tempcharge st @ vs\<rparr>)))"

fun read_lines :: "(string \<Rightarrow> 'v option) \<Rightarrow> 'v reader \<Rightarrow> string list \<Rightarrow> error + 'v reader" where
  "read_lines pyfloat st [] = Inr st"
| "read_lines pyfloat st (line # lines) =
     (case read_line pyfloat st line of
        Inl e \<Rightarrow> Inl e
      | Inr st' \<Rightarrow> read_lines pyfloat st' lines)"

text \<open>
  \<^verbatim>\<open>
  charge[x,y,z] = tempcharge[count]
  count += 1
  \<close>
  over the positions of the three loops; a missing value is an \<^verbatim>\<open>IndexError\<close>.
\<close>

fun fill_loop :: "'v list \<Rightarrow> 'v ndarray \<Rightarrow> nat \<Rightarrow> (nat \<times> nat \<times> nat) list \<Rightarrow> error + 'v ndarray" where
  "fill_loop temp charge cnt [] = Inr charge"
| "fill_loop temp charge cnt (p # ps) =
     (case p of (x, y, z) \<Rightarrow>
        if cnt < length temp then
          ebind (setitem charge (int x, int y, int z) (temp ! cnt)) (\<lambda>charge'.
            fill_loop temp charge' (cnt + 1) ps)
        else Inl IndexError)"

definition read_postqe_output_file :: "(string \<Rightarrow> 'v option) \<Rightarrow> string \<Rightarrow> error + ('v::zero) ndarray" where
  "read_postqe_output_file pyfloat content =
     ebind (read_lines pyfloat \<lparr>count = 0, nr = (0, 0, 0), tempcharge = []\<rparr> (file_lines content)) (\<lambda>st.
     ebind (np_zeros (nr st)) (\<lambda>charge.
       fill_loop (tempcharge st) charge 0 (loop_order (shape charge))))"

section \<open>The text codec in the words of the specification\<close>

text \<open>
  The shape of a number in scientific notation with nine digits after the point: an
  optional minus, a digit, a point, nine digits, \<open>E\<close>, a sign and two digits or more.
\<close>

definition is_sci9 :: "string \<Rightarrow> bool" where
  "is_sci9 t = (let u = (if t \<noteq> [] \<and> hd t = CHR ''-'' then tl t else t) in
     15 \<le> length u \<and> is_digit (u ! 0) \<and> u ! 1 = CHR ''.'' \<and>
     list_all is_digit (take 9 (drop 2 u)) \<and> u ! 11 = CHR ''E'' \<and>
     (u ! 12 = CHR ''+'' \<or> u ! 12 = CHR ''-'') \<and> list_all is_digit (drop 13 u))"

text \<open>A text that \<^verbatim>\<open>split\<close> gives back as one token and that is not the mark of a header.\<close>

definition good_token :: "string \<Rightarrow> bool" where
  "good_token t = (t \<noteq> [] \<and> (\<forall>c \<in> set t. \<not> is_space c) \<and> t \<noteq> ''#'')"

text \<open>
  The words of the specification for the layout: the values of one line, each after two
  blanks, and the values cut into groups of five, the last group holding what is left.
\<close>

definition value_line :: "real list \<Rightarrow> string" where
  "value_line g = concat (map (\<lambda>v. ''  '' @ format_9E v) g)"

fun groups5 :: "'a list \<Rightarrow> 'a list list" where
  "groups5 vs = (if vs = [] then [] else take 5 vs # groups5 (drop 5 vs))"

declare groups5.simps [simp del]

text \<open>A position of the loops as the index triple of \<^verbatim>\<open>charge[x,y,z]\<close>.\<close>

definition to_index :: "nat \<times> nat \<times> nat \<Rightarrow> int \<times> int \<times> int" where
  "to_index p = (case p of (x, y, z) \<Rightarrow> (int x, int y, int z))"

text \<open>
  The words of the specification for the reader: a header line is one whose first
  token is \<open>#\<close>; the value tokens of a file are the tokens of its other lines, in order;
  a line is in order when it holds a token and, if it is no header, \<^verbatim>\<open>float\<close> reads
  each of its tokens.
\<close>

definition is_header :: "string \<Rightarrow> bool" where
  "is_header l = (case split_ws l of [] \<Rightarrow> False | t # ts \<Rightarrow> t = ''#'')"

definition value_tokens :: "string list \<Rightarrow> string list" where
  "value_tokens ls = concat (map split_ws (filter (\<lambda>l. \<not> is_header l) ls))"

definition line_ok :: "(string \<Rightarrow> 'v option) \<Rightarrow> string \<Rightarrow> bool" where
  "line_ok pyfloat l = (split_ws l \<noteq> [] \<and>
     (\<not> is_header l \<longrightarrow> (\<forall>t \<in> set (split_ws l). pyfloat t \<noteq> None)))"

text \<open>
  The values of a field in the order of the loops, and one line of the written text: the
  values of a group and, after a group of five, a line break.
\<close>

definition field_values :: "'a ndarray \<Rightarrow> 'a list" where
  "field_values charge = map (cell charge) (loop_order (shape charge))"

definition body_line :: "real list \<Rightarrow> string" where
  "body_line g = value_line g @ (if length g = 5 then [CHR 0x0A] else [])"

section \<open>The pseudopotential reader \<^verbatim>\<open>read_pseudo_file\<close>\<close>

text \<open>
  \<^verbatim>\<open>line.replace(old, new)\<close>: the occurrences of \<open>old\<close> are replaced from left to right,
  each search starting after the occurrence replaced before; with an empty \<open>old\<close> the
  text \<open>new\<close> is put before every character and at the end.
\<close>

function replace :: "string \<Rightarrow> string \<Rightarrow> string \<Rightarrow> string" where
  "replace old new s =
     (if old = [] then new @ concat (map (\<lambda>c. c # new) s)
      else if s = [] then []
      else if prefix old s then new @ replace old new (drop (length old) s)
      else hd s # replace old new (tl s))"
  by pat_completeness auto
termination
  by (relation "measure (\<lambda>(old, new, s). length s)") auto

declare replace.simps [simp del]

fun contains :: "string \<Rightarrow> string \<Rightarrow> bool" where
  "contains pat [] = (pat = [])"
| "contains pat (c # cs) = (prefix pat (c # cs) \<or> contains pat cs)"

text \<open>
  An element of \<^verbatim>\<open>xml.etree.ElementTree\<close>: tag, attributes in document order, the text
  before the first child (\<open>None\<close> when there is none) and the children.
\<close>

datatype elem = Elem (etag: string) (attrib: "(string \<times> string) list") (etext: "string option")
  (children: "elem list")

text \<open>
  The values the reader stores: \<^verbatim>\<open>None\<close>, a string, a numpy array of floats, a list and
  a dictionary with its keys in insertion order.
\<close>

datatype 'f pyval = PNone | PStr string | PArr "'f list" | PList "'f pyval list"
  | PDict "(string \<times> 'f pyval) list"

fun dict_update :: "(string \<times> 'v) list \<Rightarrow> string \<Rightarrow> 'v \<Rightarrow> (string \<times> 'v) list" where
  "dict_update [] k v = [(k, v)]"
| "dict_update (kv # d) k v = (if fst kv = k then (k, v) # d else kv # dict_update d k v)"

text \<open>\<^verbatim>\<open>psroot.find('./A')\<close> and \<^verbatim>\<open>psroot.find('./A/B')\<close>: the first match in document order.\<close>

definition find_child :: "string \<Rightarrow> elem \<Rightarrow> elem option" where
  "find_child t e = find (\<lambda>c. etag c = t) (children e)"

definition find_grandchild :: "string \<Rightarrow> string \<Rightarrow> elem \<Rightarrow> elem option" where
  "find_grandchild t u e =
     find (\<lambda>c. etag c = u) (concat (map children (filter (\<lambda>c. etag c = t) (children e))))"

text \<open>\<^verbatim>\<open>dict(el.items())\<close>\<close>

definition items_dict :: "elem \<Rightarrow> (string \<times> 'f pyval) list" where
  "items_dict e = fold (\<lambda>kv d. dict_update d (fst kv) (PStr (snd kv))) (attrib e) []"

text \<open>\<^verbatim>\<open>node.text\<close> for the result of a \<^verbatim>\<open>find\<close>, which is \<^verbatim>\<open>None\<close> when nothing matched.\<close>

definition node_text :: "elem option \<Rightarrow> error + 'f pyval" where
  "node_text node = (case node of
       None \<Rightarrow> Inl AttributeError
     | Some e \<Rightarrow> Inr (case etext e of None \<Rightarrow> PNone | Some t \<Rightarrow> PStr t))"

text \<open>\<^verbatim>\<open>np.array([float(x) for x in node.text.split()])\<close>\<close>

definition float_array :: "(string \<Rightarrow> 'f option) \<Rightarrow> elem option \<Rightarrow> error + 'f pyval" where
  "float_array pyfloat node = (case node of
       None \<Rightarrow> Inl AttributeError
     | Some e \<Rightarrow>
         (case etext e of
            None \<Rightarrow> Inl AttributeError
          | Some t \<Rightarrow> ebind (floats pyfloat (split_ws t)) (\<lambda>vs. Inr (PArr vs))))"

text \<open>
  The loop over the children of \<^verbatim>\<open>PP_AUGMENTATION\<close>, with the lists \<^verbatim>\<open>pp_qijl\<close>,
  \<^verbatim>\<open>pp_qij\<close> and the variable \<^verbatim>\<open>pp_q\<close> as its state.
\<close>

fun augmentation_loop ::
  "(string \<Rightarrow> 'f option) \<Rightarrow> 'f pyval list \<times> 'f pyval list \<times> 'f pyval \<Rightarrow> elem list \<Rightarrow>
     error + 'f pyval list \<times> 'f pyval list \<times> 'f pyval" where
  "augmentation_loop pyfloat st [] = Inr st"
| "augmentation_loop pyfloat st (q # qs) = (case st of (pp_qijl, pp_qij, pp_q) \<Rightarrow>
     if contains ''PP_QIJL'' (etag q) then
       ebind (float_array pyfloat (Some q)) (\<lambda>val.
         augmentation_loop pyfloat
           (pp_qijl @ [PDict (dict_update (items_dict q) ''qijl'' val)], pp_qij, pp_q) qs)
     else if contains ''PP_QIJ'' (etag q) then
       ebind (float_array pyfloat (Some q)) (\<lambda>val.
         augmentation_loop pyfloat
           (pp_qijl, pp_qij @ [PDict (dict_update (items_dict q) ''qij'' val)], pp_q) qs)
     else if etag q = ''PP_Q'' then
       ebind (float_array pyfloat (Some q)) (\<lambda>val.
         augmentation_loop pyfloat (pp_qijl, pp_qij, val) qs)
     else augmentation_loop pyfloat st qs)"

text \<open>
  The loop over the children of \<^verbatim>\<open>PP_NONLOCAL\<close>, with \<^verbatim>\<open>betas\<close>, \<^verbatim>\<open>dij\<close>, \<^verbatim>\<open>pp_aug\<close>
  and \<^verbatim>\<open>pp_q\<close> as its state.
\<close>

fun nonlocal_loop ::
  "(string \<Rightarrow> 'f option) \<Rightarrow> 'f pyval list \<times> 'f pyval \<times> 'f pyval \<times> 'f pyval \<Rightarrow> elem list \<Rightarrow>
     error + 'f pyval list \<times> 'f pyval \<times> 'f pyval \<times> 'f pyval" where
  "nonlocal_loop pyfloat st [] = Inr st"
| "nonlocal_loop pyfloat st (el # els) = (case st of (betas, dij, pp_aug, pp_q) \<Rightarrow>
     if contains ''PP_BETA'' (etag el) then
       ebind (float_array pyfloat (Some el)) (\<lambda>val.
         nonlocal_loop pyfloat
           (betas @ [PDict (dict_update (items_dict el) ''beta'' val)], dij, pp_aug, pp_q) els)
     else if contains ''PP_DIJ'' (etag el) then
       ebind (float_array pyfloat (Some el)) (\<lambda>val.
         nonlocal_loop pyfloat (betas, val, pp_aug, pp_q) els)
     else if contains ''PP_AUGMENTATION'' (etag el) then
       ebind (augmentation_loop pyfloat ([], [], pp_q) (children el)) (\<lambda>r.
         case r of (pp_qijl, pp_qij, pp_q') \<Rightarrow>
           nonlocal_loop pyfloat
             (betas, dij,
              PDict (dict_update (dict_update (dict_update (items_dict el)
                ''PP_QIJL'' (PList pp_qijl)) ''PP_QIJ'' (PList pp_qij)) ''PP_Q'' pp_q'),
              pp_q') els)
     else nonlocal_loop pyfloat st els)"

text \<open>Lines 117 to 187 of \<^verbatim>\<open>read_pseudo_file\<close>: the dictionary built from the parsed tree.\<close>

definition extract_pseudo :: "(string \<Rightarrow> 'f option) \<Rightarrow> elem \<Rightarrow> error + (string \<times> 'f pyval) list" where
  "extract_pseudo pyfloat psroot =
     ebind (node_text (find_child ''PP_INFO'' psroot)) (\<lambda>pp_info.
     let pp_input = (case node_text (find_grandchild ''PP_INFO'' ''PP_INPUTFILE'' psroot) of
                       Inl e \<Rightarrow> PStr [] | Inr v \<Rightarrow> v);
         pseudo = dict_update [] ''PP_INFO'' (PDict [(''INFO'', pp_info), (''PP_INPUT'', pp_input)])
     in case find_child ''PP_HEADER'' psroot of
          None \<Rightarrow> Inl AttributeError
        | Some pp_header \<Rightarrow>
     let pseudo = dict_update pseudo ''PP_HEADER'' (PDict (items_dict pp_header))
     in case find_child ''PP_MESH'' psroot of
          None \<Rightarrow> Inl AttributeError
        | Some mesh \<Rightarrow>
     ebind (float_array pyfloat (find_grandchild ''PP_MESH'' ''PP_R'' psroot)) (\<lambda>pp_r.
     ebind (float_array pyfloat (find_grandchild ''PP_MESH'' ''PP_RAB'' psroot)) (\<lambda>pp_rab.
     let pp_mesh = dict_update (dict_update (items_dict mesh) ''PP_R'' pp_r) ''PP_RAB'' pp_rab;
         pseudo = dict_update pseudo ''PP_MESH'' (PDict pp_mesh)
     in
     ebind (case find_child ''PP_LOCAL'' psroot of
              None \<Rightarrow> Inr PNone
            | Some node \<Rightarrow> float_array pyfloat (Some node)) (\<lambda>pp_local.
     let pseudo = dict_update pseudo ''PP_LOCAL'' pp_local in
     ebind (case find_child ''PP_RHOATOM'' psroot of
              None \<Rightarrow> Inr PNone
            | Some node \<Rightarrow> float_array pyfloat (Some node)) (\<lambda>pp_rhoatom.
     let pseudo = dict_update pseudo ''PP_RHOATOM'' pp_rhoatom in
     ebind (case find_child ''PP_NONLOCAL'' psroot of
              None \<Rightarrow> Inr PNone
            | Some node \<Rightarrow>
                ebind (nonlocal_loop pyfloat ([], PNone, PNone, PNone) (children node)) (\<lambda>r.
                  case r of (betas, dij, pp_aug, pp_q) \<Rightarrow>
                    Inr (PDict [(''PP_BETA'', PList betas), (''PP_DIJ'', dij),
                                (''PP_AUGMENTATION'', pp_aug)]))) (\<lambda>pp_nonlocal.
     Inr (dict_update pseudo ''PP_NONLOCAL'' pp_nonlocal)))))))"

text \<open>
  \<^verbatim>\<open>
  try:
      psroot = ET.fromstringlist(pslines)
  except ET.ParseError:
      return pseudo
  \<close>
  The outcome of the library's parser is \<open>None\<close> for its \<^verbatim>\<open>ParseError\<close>.
\<close>

definition read_pseudo_tree ::
  "(string \<Rightarrow> 'f option) \<Rightarrow> elem option \<Rightarrow> error + (string \<times> 'f pyval) list" where
  "read_pseudo_tree pyfloat parsed = (case parsed of
       None \<Rightarrow> Inr []
     | Some psroot \<Rightarrow> extract_pseudo pyfloat psroot)"

text \<open>
  \<^verbatim>\<open>pslines = [ line.replace('&input','&amp;input') for line in temp ]\<close>, then the
  parser of the library, a parameter, and the rest of the function.
\<close>

definition read_pseudo_file ::
  "(string list \<Rightarrow> elem option) \<Rightarrow> (string \<Rightarrow> 'f option) \<Rightarrow> string \<Rightarrow> error + (string \<times> 'f pyval) list" where
  "read_pseudo_file fromstringlist pyfloat content =
     (let pslines = map (replace ''&input'' ''&amp;input'') (file_lines content)
      in read_pseudo_tree pyfloat (fromstringlist pslines))"

section \<open>XML documents and their parser, for the pseudopotential reader\<close>

text \<open>
  The parser \<^verbatim>\<open>ET.fromstringlist\<close> belongs to the library, and \<open>read_pseudo_file\<close> above
  takes it as a parameter. What follows is a parser of a part of XML 1.0, after the
  XML recommendation: start tags and end tags of a name (a letter or \<open>_\<close>, then
  letters, digits, \<open>_\<close>, \<open>-\<close> and \<open>.\<close>), character data of printable ASCII characters,
  tabs and newlines, and the five predefined entity references; white space alone may
  stand around the root element. A text outside this part is rejected. As in XML, an
  ampersand that does not begin a reference, and a \<open><\<close> that does not begin a tag, are
  not well-formed; a \<open>>\<close> in character data has to be written \<open>&gt;\<close> here. The text
  of an element is the character data before its first child, \<open>None\<close> when there is
  none, as \<^verbatim>\<open>ElementTree\<close> has it; the character data after a child is the \<^verbatim>\<open>tail\<close> of
  that child, which the reader never looks at.
\<close>

datatype xml_mode = InText | TagStart | OpenTag string | CloseTag string | Entity string

record xml_frame =
  ftag :: string
  ftext :: string
  fchildren :: "elem list"

record xml_state =
  mode :: xml_mode
  stack :: "xml_frame list"
  root :: "elem option"

definition is_name_start :: "char \<Rightarrow> bool" where
  "is_name_start c = (c \<in> set ''abcdefghijklmnopqrstuvwxyzABCDEFGHIJKLMNOPQRSTUVWXYZ_'')"

definition is_name_char :: "char \<Rightarrow> bool" where
  "is_name_char c = (is_name_start c \<or> c \<in> set ''0123456789-.'')"

definition is_xml_space :: "char \<Rightarrow> bool" where
  "is_xml_space c = (c = CHR '' '' \<or> c = CHR 0x09 \<or> c = CHR 0x0A)"

definition is_xml_char :: "char \<Rightarrow> bool" where
  "is_xml_char c = (is_xml_space c \<or> (0x20 \<le> (of_char c :: nat) \<and> (of_char c :: nat) \<le> 0x7E))"

definition entity_char :: "string \<Rightarrow> char option" where
  "entity_char name =
     (if name = ''amp'' then Some CHR ''&''
      else if name = ''lt'' then Some CHR ''<''
      else if name = ''gt'' then Some CHR ''>''
      else if name = ''quot'' then Some CHR 0x22
      else if name = ''apos'' then Some CHR 0x27
      else None)"

text \<open>
  A character of character data: outside the root element it has to be white space;
  inside, it joins the text of the open element until that has a child.
\<close>

definition xml_chardata :: "xml_state \<Rightarrow> char \<Rightarrow> xml_state option" where
  "xml_chardata st c = (case stack st of
       [] \<Rightarrow> if is_xml_space c then Some st else None
     | f # fs \<Rightarrow>
         if is_xml_char c
         then Some (st\<lparr>stack := (if fchildren f = [] then f\<lparr>ftext := ftext f @ [c]\<rparr> else f) # fs\<rparr>)
         else None)"

text \<open>An end tag closes the open element, which becomes the root or the next child.\<close>

definition xml_close :: "xml_state \<Rightarrow> string \<Rightarrow> xml_state option" where
  "xml_close st name = (case stack st of
       [] \<Rightarrow> None
     | f # fs \<Rightarrow>
         if ftag f \<noteq> name then None
         else let e = Elem (ftag f) [] (if ftext f = [] then None else Some (ftext f)) (fchildren f)
              in (case fs of
                    [] \<Rightarrow> Some (st\<lparr>mode := InText, stack := [], root := Some e\<rparr>)
                  | p # ps \<Rightarrow>
                      Some (st\<lparr>mode := InText, stack := p\<lparr>fchildren := fchildren p @ [e]\<rparr> # ps\<rparr>)))"

definition xml_step :: "xml_state \<Rightarrow> char \<Rightarrow> xml_state option" where
  "xml_step st c = (case mode st of
       InText \<Rightarrow>
         if c = CHR ''<'' then Some (st\<lparr>mode := TagStart\<rparr>)
         else if c = CHR ''&'' then (if stack st = [] then None else Some (st\<lparr>mode := Entity []\<rparr>))
         else if c = CHR ''>'' then None
         else xml_chardata st c
     | TagStart \<Rightarrow>
         if c = CHR ''/'' then Some (st\<lparr>mode := CloseTag []\<rparr>)
         else if is_name_start c then
           (if stack st = [] \<and> root st \<noteq> None then None else Some (st\<lparr>mode := OpenTag [c]\<rparr>))
         else None
     | OpenTag name \<Rightarrow>
         if c = CHR ''>'' then
           Some (st\<lparr>mode := InText, stack := \<lparr>ftag = name, ftext = [], fchildren = []\<rparr> # stack st\<rparr>)
         else if is_name_char c then Some (st\<lparr>mode := OpenTag (name @ [c])\<rparr>)
         else None
     | CloseTag name \<Rightarrow>
         if c = CHR ''>'' then xml_close st name
         else if is_name_char c then Some (st\<lparr>mode := CloseTag (name @ [c])\<rparr>)
         else None
     | Entity name \<Rightarrow>
         if c = CHR '';'' then
           (case entity_char name of
              None \<Rightarrow> None
            | Some d \<Rightarrow> xml_chardata (st\<lparr>mode := InText\<rparr>) d)
         else if is_name_char c then Some (st\<lparr>mode := Entity (name @ [c])\<rparr>)
         else None)"

text \<open>The text is well-formed when it ends outside every tag, with the root element closed.\<close>

fun xml_run :: "xml_state \<Rightarrow> string \<Rightarrow> elem option" where
  "xml_run st [] = (if mode st = InText \<and> stack st = [] then root st else None)"
| "xml_run st (c # cs) = (case xml_step st c of None \<Rightarrow> None | Some st' \<Rightarrow> xml_run st' cs)"

definition xml_elements :: "string list \<Rightarrow> elem option" where
  "xml_elements pslines = xml_run \<lparr>mode = InText, stack = [], root = None\<rparr> (concat pslines)"

text \<open>
  The documents of that part of XML, written from their trees. An element is well-formed
  when its tag is a name, it has no attributes, its text is \<open>None\<close> or a non-empty
  string of XML characters, and its children are well-formed.
\<close>

fun wf_elem :: "elem \<Rightarrow> bool" where
  "wf_elem (Elem tag attrs tx cs) =
     (tag \<noteq> [] \<and> is_name_start (hd tag) \<and> (\<forall>c \<in> set tag. is_name_char c) \<and> attrs = [] \<and>
      (case tx of None \<Rightarrow> True | Some t \<Rightarrow> t \<noteq> [] \<and> (\<forall>c \<in> set t. is_xml_char c)) \<and>
      (\<forall>e \<in> set cs. wf_elem e))"

text \<open>Character data as XML has it: \<open>&\<close>, \<open><\<close> and \<open>>\<close> are written as references.\<close>

definition escape_char :: "char \<Rightarrow> string" where
  "escape_char c =
     (if c = CHR ''&'' then ''&amp;'' else if c = CHR ''<'' then ''&lt;''
      else if c = CHR ''>'' then ''&gt;'' else [c])"

definition xml_escape :: "string \<Rightarrow> string" where
  "xml_escape t = concat (map escape_char t)"

text \<open>
  Character data as a pseudopotential file has it: the same, but for the ampersand of
  every \<open>&input\<close>, which is left as it is.
\<close>

fun xml_escape_but_input :: "string \<Rightarrow> string" where
  "xml_escape_but_input [] = []"
| "xml_escape_but_input (c # cs) =
     (if c = CHR ''&'' \<and> prefix ''input'' cs then [c] else escape_char c) @ xml_escape_but_input cs"

text \<open>The text of a document, given the way its character data is written.\<close>

fun xml_document :: "(string \<Rightarrow> string) \<Rightarrow> elem \<Rightarrow> string" where
  "xml_document esc (Elem tag attrs tx cs) =
     ''<'' @ tag @ ''>'' @ (case tx of None \<Rightarrow> [] | Some t \<Rightarrow> esc t) @
     concat (map (xml_document esc) cs) @ ''</'' @ tag @ ''>''"

text \<open>The state after an element: it is the root, or the next child of the open element.\<close>

definition add_child :: "elem \<Rightarrow> xml_state \<Rightarrow> xml_state" where
  "add_child e st = (case stack st of
       [] \<Rightarrow> st\<lparr>root := Some e\<rparr>
     | p # ps \<Rightarrow> st\<lparr>stack := p\<lparr>fchildren := fchildren p @ [e]\<rparr> # ps\<rparr>)"

section \<open>The errors of the pseudopotential reader\<close>

text \<open>A result that is a value, an \<^verbatim>\<open>AttributeError\<close> or a \<^verbatim>\<open>ValueError\<close>.\<close>

definition benign :: "error + 'a \<Rightarrow> bool" where
  "benign m = (case m of Inl e \<Rightarrow> e = AttributeError \<or> e = ValueError | Inr v \<Rightarrow> True)"

section \<open>Facts about arrays and the scatter step\<close>

lemma axis_index_fits:
  assumes "- int n \<le> i" "i < int n"
  shows "axis_index n i = Inr (nat (i mod int n))"
proof (cases "0 \<le> i")
  case True
  then show ?thesis using assms by (simp add: axis_index_def)
next
  case False
  then have "i + int n = i mod int n"
    using assms by (intro mod_pos_pos_trivial [of "i + int n" "int n", simplified, symmetric]) auto
  then show ?thesis using False assms by (simp add: axis_index_def)
qed

lemma axis_index_less: "axis_index n i = Inr x \<Longrightarrow> x < n"
  by (auto simp: axis_index_def split: if_splits)

lemma wf_arrayD:
  assumes "wf_array a" "shape a = (n1, n2, n3)"
  shows "length (cells a) = n1"
    and "x < n1 \<Longrightarrow> length (cells a ! x) = n2"
    and "x < n1 \<Longrightarrow> y < n2 \<Longrightarrow> length (cells a ! x ! y) = n3"
  using assms by (auto simp: wf_array_def dest!: nth_mem)

lemma wf_arrayI:
  assumes "shape a = (n1, n2, n3)" "length (cells a) = n1"
    and "\<And>x. x < n1 \<Longrightarrow> length (cells a ! x) = n2"
    and "\<And>x y. x < n1 \<Longrightarrow> y < n2 \<Longrightarrow> length (cells a ! x ! y) = n3"
  shows "wf_array a"
  using assms unfolding wf_array_def by (auto simp: in_set_conv_nth)

lemma setitem_cases:
  assumes "setitem a (i, j, k) v = Inr a'" "shape a = (n1, n2, n3)"
  obtains x y z where "axis_index n1 i = Inr x" "axis_index n2 j = Inr y" "axis_index n3 k = Inr z"
    "a' = a\<lparr>cells := (cells a)[x := (cells a ! x)[y := (cells a ! x ! y)[z := v]]]\<rparr>"
  using assms by (auto simp: setitem_def ebind_def split: sum.splits)

lemma axis_index_Inr: "axis_index n i = Inr x \<Longrightarrow> - int n \<le> i \<and> i < int n \<and> x = nat (i mod int n)"
  using axis_index_fits [of n i] by (auto simp: axis_index_def split: if_splits)

lemma setitem_fits:
  assumes "fits (shape a) p"
  shows "setitem a p v = Inr (a\<lparr>cells := (cells a)[fst (wrap (shape a) p) :=
           (cells a ! fst (wrap (shape a) p))[fst (snd (wrap (shape a) p)) :=
             (cells a ! fst (wrap (shape a) p) ! fst (snd (wrap (shape a) p)))
               [snd (snd (wrap (shape a) p)) := v]]]\<rparr>)"
  using assms
  by (cases p; cases "shape a")
     (auto simp: fits_def wrap_def setitem_def ebind_def axis_index_fits)

lemma setitem_Inr:
  assumes "setitem a p v = Inr a'" "wf_array a"
  shows "wf_array a'" "shape a' = shape a" "fits (shape a) p"
    "in_shape (shape a) q \<Longrightarrow> cell a' q = (if q = wrap (shape a) p then v else cell a q)"
proof -
  obtain i j k where p: "p = (i, j, k)" by (cases p)
  obtain n1 n2 n3 where s: "shape a = (n1, n2, n3)" by (cases "shape a")
  from assms(1) p s obtain x y z where
    ax: "axis_index n1 i = Inr x" "axis_index n2 j = Inr y" "axis_index n3 k = Inr z"
    and a': "a' = a\<lparr>cells := (cells a)[x := (cells a ! x)[y := (cells a ! x ! y)[z := v]]]\<rparr>"
    by (auto elim: setitem_cases)
  note lt = axis_index_less [OF ax(1)] axis_index_less [OF ax(2)] axis_index_less [OF ax(3)]
  note wfD = wf_arrayD [OF assms(2) s]
  show "shape a' = shape a" by (simp add: a')
  show "fits (shape a) p"
    using ax by (auto simp: fits_def p s dest: axis_index_Inr)
  have w: "wrap (shape a) p = (x, y, z)"
    using ax by (auto simp: wrap_def p s dest: axis_index_Inr)
  show "wf_array a'"
  proof (rule wf_arrayI)
    show "shape a' = (n1, n2, n3)" by (simp add: a' s)
    show "length (cells a') = n1" by (simp add: a' wfD)
    show "length (cells a' ! u) = n2" if "u < n1" for u
      using that wfD lt by (simp add: a' nth_list_update)
    show "length (cells a' ! u ! w) = n3" if "u < n1" "w < n2" for u w
      using that wfD lt by (simp add: a' nth_list_update)
  qed
  show "cell a' q = (if q = wrap (shape a) p then v else cell a q)" if "in_shape (shape a) q"
  proof -
    obtain u w t where q: "q = (u, w, t)" by (cases q) 
    from that have "u < n1" "w < n2" "t < n3" by (auto simp: in_shape_def q s)
    then show ?thesis
      using wfD lt by (auto simp: cell_def q w a' nth_list_update)
  qed
qed

lemma scatter_loop_Inr:
  assumes "scatter_loop a els = Inr a'" "wf_array a"
  shows "wf_array a' \<and> shape a' = shape a \<and> (\<forall>el \<in> set els. fits (shape a) (fst el)) \<and>
    (\<forall>q. in_shape (shape a) q \<longrightarrow>
      cell a' q = (case last_write (shape a) els q of None \<Rightarrow> cell a q | Some c \<Rightarrow> c))"
  using assms
proof (induction els arbitrary: a)
  case Nil
  then show ?case by (simp add: last_write_def)
next
  case (Cons el els)
  obtain p rho where el: "el = (p, rho)" by (cases el)
  from Cons.prems obtain b where b: "setitem a p rho = Inr b" and r: "scatter_loop b els = Inr a'"
    by (auto simp: el split: sum.splits)
  note sb = setitem_Inr [OF b Cons.prems(2)]
  from Cons.IH [OF r sb(1)] have ih: "wf_array a'" "shape a' = shape b"
    "\<forall>el \<in> set els. fits (shape b) (fst el)"
    "\<And>q. in_shape (shape b) q \<Longrightarrow>
      cell a' q = (case last_write (shape b) els q of None \<Rightarrow> cell b q | Some c \<Rightarrow> c)"
    by auto
  show ?case
    using ih sb
    by (auto simp: el last_write_def map_add_def split: option.splits)
qed

lemma scatter_loop_total:
  assumes "wf_array a" "\<forall>el \<in> set els. fits (shape a) (fst el)"
  shows "\<exists>a'. scatter_loop a els = Inr a'"
  using assms
proof (induction els arbitrary: a)
  case Nil
  then show ?case by simp
next
  case (Cons el els)
  obtain p rho where el: "el = (p, rho)" by (cases el)
  from Cons.prems have f: "fits (shape a) p" by (simp add: el)
  from setitem_fits [OF f] obtain b where b: "setitem a p rho = Inr b" by blast
  note sb = setitem_Inr [OF b Cons.prems(1)]
  from Cons.IH [of b] sb Cons.prems obtain a' where "scatter_loop b els = Inr a'" by auto
  then show ?case by (simp add: el b)
qed

lemma array_eqI:
  assumes "wf_array a" "wf_array b" "shape a = shape b"
    and "\<And>q. in_shape (shape a) q \<Longrightarrow> cell a q = cell b q"
  shows "cells a = cells b"
proof -
  obtain n1 n2 n3 where s: "shape a = (n1, n2, n3)" by (cases "shape a")
  then have sb: "shape b = (n1, n2, n3)" using assms(3) by simp
  note A = wf_arrayD [OF assms(1) s] and B = wf_arrayD [OF assms(2) sb]
  have c: "cells a ! x ! y ! z = cells b ! x ! y ! z" if "x < n1" "y < n2" "z < n3" for x y z
    using assms(4) [of "(x, y, z)"] that by (simp add: in_shape_def s cell_def)
  show ?thesis
  proof (rule nth_equalityI)
    show "length (cells a) = length (cells b)" using A B by simp
    fix x assume "x < length (cells a)"
    then have x: "x < n1" using A by simp
    show "cells a ! x = cells b ! x"
    proof (rule nth_equalityI)
      show "length (cells a ! x) = length (cells b ! x)" using A B x by simp
      fix y assume "y < length (cells a ! x)"
      then have y: "y < n2" using A x by simp
      show "cells a ! x ! y = cells b ! x ! y"
        using A B x y c by (intro nth_equalityI) auto
    qed
  qed
qed

lemma np_zeros_Inr:
  assumes "0 \<le> n1" "0 \<le> n2" "0 \<le> n3"
  shows "np_zeros (n1, n2, n3) = Inr \<lparr>shape = (nat n1, nat n2, nat n3),
               cells = replicate (nat n1) (replicate (nat n2) (replicate (nat n3) 0))\<rparr>"
  using assms by (simp add: np_zeros_def)

lemma wf_zeros: "wf_array \<lparr>shape = (n1, n2, n3), cells = replicate n1 (replicate n2 (replicate n3 v))\<rparr>"
  by (auto simp: wf_array_def)

lemma cell_zeros: "in_shape (n1, n2, n3) q \<Longrightarrow>
   cell \<lparr>shape = (n1, n2, n3), cells = replicate n1 (replicate n2 (replicate n3 v))\<rparr> q = v"
  by (cases q) (auto simp: in_shape_def cell_def)


lemma setitem_Inl: "setitem a p v = Inl e \<Longrightarrow> e = IndexError \<and> \<not> fits (shape a) p"
  by (cases p; cases "shape a")
     (auto simp: setitem_def ebind_def fits_def axis_index_def split: sum.splits if_splits)

lemma scatter_loop_cell:
  assumes "scatter_loop a els = Inr a'" "wf_array a" "in_shape (shape a) q"
  shows "cell a' q = (case last_write (shape a) els q of None \<Rightarrow> cell a q | Some c \<Rightarrow> c)"
  using scatter_loop_Inr [OF assms(1,2)] assms(3) by blast

lemma fits_wrap_in_shape:
  assumes "fits s p"
  shows "in_shape s (wrap s p)"
proof -
  have "nat (i mod int n) < n" if "- int n \<le> i" "i < int n" for i n
    using axis_index_less [OF axis_index_fits [OF that]] .
  then show ?thesis
    using assms by (cases s; cases p) (simp add: in_shape_def wrap_def fits_def)
qed

lemma last_write_last:
  assumes "m < length els"
    and "\<forall>k. m < k \<and> k < length els \<longrightarrow> wrap s (fst (els ! k)) \<noteq> wrap s (fst (els ! m))"
  shows "last_write s els (wrap s (fst (els ! m))) = Some (snd (els ! m))"
proof -
  let ?f = "\<lambda>el. (wrap s (fst el), snd el)"
  let ?k = "wrap s (fst (els ! m))"
  have split: "els = take m els @ els ! m # drop (Suc m) els"
    using assms(1) by (rule id_take_nth_drop)
  have "?k \<notin> fst ` set (map ?f (drop (Suc m) els))"
  proof
    assume "?k \<in> fst ` set (map ?f (drop (Suc m) els))"
    then obtain el where "el \<in> set (drop (Suc m) els)" "wrap s (fst el) = ?k" by force
    then obtain j where "j < length (drop (Suc m) els)" "drop (Suc m) els ! j = el"
      by (auto simp: in_set_conv_nth)
    then have "Suc m + j < length els" "els ! (Suc m + j) = el" using assms(1) by auto
    with assms(2) \<open>wrap s (fst el) = ?k\<close> show False by force
  qed
  then have none: "map_of (rev (map ?f (drop (Suc m) els))) ?k = None"
    by (simp add: map_of_eq_None_iff)
  have "last_write s els = map_of (rev (map ?f (drop (Suc m) els)) @ ?f (els ! m) # rev (map ?f (take m els)))"
    unfolding last_write_def by (subst split) simp
  then show ?thesis using none by (simp add: map_add_def)
qed

lemma last_write_overwritten:
  assumes "n < m" "m < length els" "wrap s (fst (els ! n)) = wrap s (fst (els ! m))"
  shows "last_write s (els[n := (fst (els ! n), c)]) = last_write s els"
proof -
  let ?f = "\<lambda>el. (wrap s (fst el), snd el)"
  let ?k = "wrap s (fst (els ! n))"
  have n: "n < length els" using assms by simp
  have split: "els = take n els @ els ! n # drop (Suc n) els"
    using n by (rule id_take_nth_drop)
  have upd: "els[n := (fst (els ! n), c)] = take n els @ (fst (els ! n), c) # drop (Suc n) els"
    using n by (rule upd_conv_take_nth_drop)
  have "els ! m \<in> set (drop (Suc n) els)"
    using assms by (auto simp: in_set_conv_nth intro!: exI [of _ "m - Suc n"])
  then have "?f (els ! m) \<in> set (rev (map ?f (drop (Suc n) els)))" by simp
  then have "fst (?f (els ! m)) \<in> fst ` set (rev (map ?f (drop (Suc n) els)))"
    by (rule imageI)
  then have "map_of (rev (map ?f (drop (Suc n) els))) ?k \<noteq> None"
    unfolding map_of_eq_None_iff using assms(3) by simp
  then obtain d where d: "map_of (rev (map ?f (drop (Suc n) els))) ?k = Some d"
    by blast
  have 1: "last_write s els = map_of (rev (map ?f (drop (Suc n) els)) @ ?f (els ! n) # rev (map ?f (take n els)))"
    unfolding last_write_def by (subst split) simp
  have 2: "last_write s (els[n := (fst (els ! n), c)]) =
      map_of (rev (map ?f (drop (Suc n) els)) @ (?k, c) # rev (map ?f (take n els)))"
    unfolding last_write_def upd by simp
  show ?thesis
    unfolding 1 2 using d by (auto simp: map_add_def fun_eq_iff split: option.splits)
qed

lemma scatter_loop_determined:
  assumes "wf_array a" "scatter_loop a els = Inr b" "scatter_loop a els' = Inr b'"
    "last_write (shape a) els' = last_write (shape a) els"
  shows "b' = b"
proof -
  note B = scatter_loop_Inr [OF assms(2) assms(1)] and B' = scatter_loop_Inr [OF assms(3) assms(1)]
  have "cells b' = cells b"
  proof (rule array_eqI)
    show "wf_array b'" "wf_array b" "shape b' = shape b" using B B' by simp_all
    fix q assume "in_shape (shape b') q"
    then have q: "in_shape (shape a) q" using B' by simp
    show "cell b' q = cell b q"
      using scatter_loop_cell [OF assms(2,1) q] scatter_loop_cell [OF assms(3,1) q] assms(4)
      by simp
  qed
  moreover have "shape b' = shape b" using B B' by simp
  ultimately show ?thesis by simp
qed

section \<open>Facts about the charge reconstruction\<close>

lemma map_array_simps [simp]:
  "shape (map_array f a) = shape a"
  "cells (map_array f a) = map (map (map f)) (cells a)"
  by (simp_all add: map_array_def)

lemma wf_map_array: "wf_array a \<Longrightarrow> wf_array (map_array f a)"
  by (cases "shape a") (auto simp: wf_array_def)

lemma cell_map_array:
  assumes "wf_array a" "in_shape (shape a) q"
  shows "cell (map_array f a) q = f (cell a q)"
proof -
  obtain n1 n2 n3 where s: "shape a = (n1, n2, n3)" by (cases "shape a")
  obtain x y z where q: "q = (x, y, z)" by (cases q)
  from assms(2) have "x < n1" "y < n2" "z < n3" by (auto simp: in_shape_def s q)
  then show ?thesis using wf_arrayD [OF assms(1) s] by (simp add: cell_def q)
qed

lemma ifftn_Inr:
  assumes "shape a = (n1, n2, n3)" "0 < n1" "0 < n2" "0 < n3"
  shows "\<exists>r. ifftn a = Inr r \<and> wf_array r \<and> shape r = (n1, n2, n3) \<and>
    (\<forall>q. in_shape (n1, n2, n3) q \<longrightarrow> cell r q = spec_idft3 (n1, n2, n3) (cell a) q)"
  using assms
  by (auto simp: ifftn_def wf_array_def in_shape_def cell_def spec_idft3_def
      interv_sum_list_conv_sum_set_nat atLeast0LessThan)

lemma fold_update_last_write:
  "fold (\<lambda>el g. g(wrap s (fst el) := snd el)) els g0 q =
     (case last_write s els q of None \<Rightarrow> g0 q | Some c \<Rightarrow> c)"
proof (induction els arbitrary: g0)
  case Nil
  then show ?case by (simp add: last_write_def)
next
  case (Cons el els)
  have lw: "last_write s (el # els) q =
      (case last_write s els q of None \<Rightarrow> [wrap s (fst el) \<mapsto> snd el] q | Some y \<Rightarrow> Some y)"
    by (simp add: last_write_def map_add_def)
  have "fold (\<lambda>el g. g(wrap s (fst el) := snd el)) (el # els) g0 q =
      (case last_write s els q of None \<Rightarrow> (g0(wrap s (fst el) := snd el)) q | Some c \<Rightarrow> c)"
    unfolding fold_simps comp_apply by (rule Cons.IH)
  also have "\<dots> = (case last_write s (el # els) q of None \<Rightarrow> g0 q | Some c \<Rightarrow> c)"
    unfolding lw by (cases "last_write s els q") auto
  finally show ?case .
qed

lemma pairs_flatten: "map (\<lambda>x. Complex (fst x) (snd x)) (pairs (flatten cs)) = cs"
  by (induction cs) (simp_all add: flatten_def)

lemma length_flatten: "length (flatten cs) = 2 * length cs"
  by (induction cs) (simp_all add: flatten_def)

lemma read_coefficients_flatten:
  "read_coefficients (Some (int (length cs))) (Some (flatten cs)) = Inr cs"
  by (simp add: read_coefficients_def reshape_pairs_def ebind_def length_flatten pairs_flatten)

lemma spec_idft3_cong:
  assumes "\<And>p. in_shape s p \<Longrightarrow> g p = h p"
  shows "spec_idft3 s g q = spec_idft3 s h q"
proof -
  obtain n1 n2 n3 where s: "s = (n1, n2, n3)" by (cases s)
  obtain x y z where q: "q = (x, y, z)" by (cases q)
  have "g (u, v, w) = h (u, v, w)" if "u < n1" "v < n2" "w < n3" for u v w
    using assms [of "(u, v, w)"] that by (simp add: in_shape_def s)
  then show ?thesis
    unfolding spec_idft3_def s q by (auto intro!: sum.cong)
qed

lemma spec_idft3_zero: "spec_idft3 s (\<lambda>p. 0) q = 0"
  by (cases s; cases q) (simp add: spec_idft3_def)

lemma spec_field_Nil: "spec_field s idx [] q = 0"
  by (cases s) (simp add: spec_field_def spec_scatter_def spec_idft3_zero)

lemma np_zeros_nat:
  "np_zeros (int n1, int n2, int n3) =
     Inr \<lparr>shape = (n1, n2, n3), cells = replicate n1 (replicate n2 (replicate n3 0))\<rparr>"
  by (simp add: np_zeros_def)

lemma reconstruct_fits:
  assumes "0 < n1" "0 < n2" "0 < n3" and "\<forall>p \<in> set idx. fits (n1, n2, n3) p"
  shows "\<exists>r. reconstruct (int n1, int n2, int n3) (Some idx) coefs = Inr r \<and>
           wf_array r \<and> shape r = (n1, n2, n3) \<and>
           (\<forall>q. in_shape (n1, n2, n3) q \<longrightarrow>
              cell r q = spec_idft3 (n1, n2, n3) (spec_scatter (n1, n2, n3) idx coefs) q
                           * of_nat (n1 * n2 * n3))"
proof -
  let ?s = "(n1, n2, n3)"
  let ?Z = "\<lparr>shape = ?s, cells = replicate n1 (replicate n2 (replicate n3 (0::complex)))\<rparr>"
  have wfZ: "wf_array ?Z" by (rule wf_zeros)
  have "\<forall>el \<in> set (zip idx coefs). fits (shape ?Z) (fst el)"
    using assms(4) by (auto dest: set_zip_leftD)
  from scatter_loop_total [OF wfZ this] obtain g where g: "scatter_loop ?Z (zip idx coefs) = Inr g" ..
  note G = scatter_loop_Inr [OF g wfZ]
  have sg: "shape g = ?s" using G by simp
  have cg: "cell g q = spec_scatter ?s idx coefs q" if "in_shape ?s q" for q
  proof -
    have "cell g q = (case last_write ?s (zip idx coefs) q of None \<Rightarrow> cell ?Z q | Some c \<Rightarrow> c)"
      using scatter_loop_cell [OF g wfZ] that by simp
    also have "cell ?Z q = 0" using that by (rule cell_zeros)
    finally show ?thesis
      by (simp add: spec_scatter_def fold_update_last_write)
  qed
  from ifftn_Inr [OF sg assms(1-3)] obtain r where r: "ifftn g = Inr r" "wf_array r" "shape r = ?s"
    and cr: "\<And>q. in_shape ?s q \<Longrightarrow> cell r q = spec_idft3 ?s (cell g) q" by blast
  let ?R = "map_array (\<lambda>c. c * of_int (int n1) * of_int (int n2) * of_int (int n3)) r"
  have "reconstruct (int n1, int n2, int n3) (Some idx) coefs = Inr ?R"
    by (simp add: reconstruct_def np_zeros_nat ebind_def g r)
  moreover have "wf_array ?R" using r(2) by (rule wf_map_array)
  moreover have "shape ?R = ?s" using r(3) by simp
  moreover have "cell ?R q = spec_idft3 ?s (spec_scatter ?s idx coefs) q * of_nat (n1 * n2 * n3)"
    if "in_shape ?s q" for q
  proof -
    have "spec_idft3 ?s (cell g) q = spec_idft3 ?s (spec_scatter ?s idx coefs) q"
      by (rule spec_idft3_cong) (rule cg)
    then show ?thesis
      using cell_map_array [OF r(2), of q] that cr [OF that] r(3) by (simp add: mult.assoc)
  qed
  ultimately show ?thesis by blast
qed

lemma map_array_Re_zeros:
  "map_array Re \<lparr>shape = s, cells = replicate n1 (replicate n2 (replicate n3 0))\<rparr> =
     \<lparr>shape = s, cells = replicate n1 (replicate n2 (replicate n3 0))\<rparr>"
  by (simp add: map_array_def)

section \<open>Facts about the text codec\<close>

lemma split_ws_Nil_iff: "split_ws s = [] \<longleftrightarrow> (\<forall>c \<in> set s. is_space c)"
  by (induction s) (auto split: list.splits)

lemma split_ws_nonspace: "\<not> is_space b \<Longrightarrow> split_ws (b # s) \<noteq> []"
  by (auto split: list.splits)

lemma split_ws_Cons_token:
  assumes "\<not> is_space a" "\<not> is_space b"
  shows "split_ws (a # b # s) = (a # hd (split_ws (b # s))) # tl (split_ws (b # s))"
proof -
  have "split_ws (b # s) \<noteq> []" using assms(2) by (rule split_ws_nonspace)
  then obtain t ts where "split_ws (b # s) = t # ts" by (cases "split_ws (b # s)") auto
  then show ?thesis using assms by (simp del: split_ws.simps(2) add: split_ws.simps(2) [of a])
qed

lemma split_ws_space: "is_space c \<Longrightarrow> split_ws (s @ c # t) = split_ws s @ split_ws t"
proof (induction s)
  case Nil
  then show ?case by simp
next
  case (Cons a s)
  show ?case
  proof (cases "is_space a")
    case True
    then show ?thesis using Cons by simp
  next
    case na: False
    show ?thesis
    proof (cases s)
      case Nil
      then show ?thesis using Cons.prems na by simp
    next
      case s: (Cons b s')
      show ?thesis
      proof (cases "is_space b")
        case True
        then show ?thesis using Cons na s by simp
      next
        case nb: False
        have ne: "split_ws (b # s') \<noteq> []" using nb by (rule split_ws_nonspace)
        have "split_ws ((a # s) @ c # t) = (a # hd (split_ws (s @ c # t))) # tl (split_ws (s @ c # t))"
          using split_ws_Cons_token [OF na nb, of "s' @ c # t"] by (simp add: s)
        also have "\<dots> = (a # hd (split_ws s @ split_ws t)) # tl (split_ws s @ split_ws t)"
          using Cons.IH [OF Cons.prems] by simp
        also have "\<dots> = ((a # hd (split_ws s)) # tl (split_ws s)) @ split_ws t"
          using ne by (simp add: s)
        also have "(a # hd (split_ws s)) # tl (split_ws s) = split_ws (a # s)"
          using split_ws_Cons_token [OF na nb, of s'] by (simp add: s)
        finally show ?thesis .
      qed
    qed
  qed
qed

lemma split_ws_token_alone:
  assumes "tok \<noteq> []" "\<forall>c \<in> set tok. \<not> is_space c"
  shows "split_ws tok = [tok]"
  using assms
proof (induction tok)
  case Nil
  then show ?case by simp
next
  case (Cons a tok)
  show ?case
  proof (cases tok)
    case Nil
    then show ?thesis using Cons.prems by simp
  next
    case t: (Cons b tok')
    have "split_ws (a # b # tok') = (a # hd (split_ws (b # tok'))) # tl (split_ws (b # tok'))"
      using Cons.prems t by (intro split_ws_Cons_token) auto
    moreover have "split_ws (b # tok') = [b # tok']" using Cons t by auto
    ultimately show ?thesis by (simp add: t)
  qed
qed

lemma split_ws_token:
  assumes "tok \<noteq> []" "\<forall>c \<in> set tok. \<not> is_space c" "rest = [] \<or> is_space (hd rest)"
  shows "split_ws (tok @ rest) = tok # split_ws rest"
proof (cases rest)
  case Nil
  then show ?thesis using split_ws_token_alone [OF assms(1,2)] by simp
next
  case (Cons c r)
  then have "is_space c" using assms(3) by simp
  then show ?thesis
    using split_ws_space [of c tok r] split_ws_token_alone [OF assms(1,2)] by (simp add: Cons)
qed

lemma file_lines_append:
  assumes "CHR 0x0A \<notin> set s"
  shows "file_lines (s @ t) =
    (case file_lines t of [] \<Rightarrow> (if s = [] then [] else [s]) | l # ls \<Rightarrow> (s @ l) # ls)"
  using assms
proof (induction s)
  case Nil
  then show ?case by (simp split: list.splits)
next
  case (Cons a s)
  then show ?case by (auto split: list.splits)
qed

lemma file_lines_line:
  assumes "CHR 0x0A \<notin> set s"
  shows "file_lines (s @ CHR 0x0A # t) = (s @ [CHR 0x0A]) # file_lines t"
  using file_lines_append [OF assms, of "CHR 0x0A # t"] by simp

lemma is_digit_digit_char: "is_digit (digit_char (n mod 10))"
proof -
  have "n mod 10 < length ''0123456789''" by simp
  then have "''0123456789'' ! (n mod 10) \<in> set ''0123456789''" by (rule nth_mem)
  then show ?thesis by (simp only: is_digit_def digit_char_def)
qed

lemma is_digit_digit_char_less: "n < 10 \<Longrightarrow> is_digit (digit_char n)"
  using is_digit_digit_char [of n] by simp

lemma dec_string_digits: "list_all is_digit (dec_string n)"
proof (induction n rule: dec_string.induct)
  case (1 n)
  show ?case
  proof (cases "n < 10")
    case True
    then show ?thesis by (subst dec_string.simps) (simp add: is_digit_digit_char_less)
  next
    case False
    then show ?thesis using 1 by (subst dec_string.simps) (simp add: is_digit_digit_char)
  qed
qed

lemma dec_string_length: "1 \<le> length (dec_string n)" "10 \<le> n \<Longrightarrow> 2 \<le> length (dec_string n)"
proof -
  show 1: "1 \<le> length (dec_string n)" for n
    by (subst dec_string.simps) simp
  show "2 \<le> length (dec_string n)" if "10 \<le> n"
    using that 1 [of "n div 10"] by (subst dec_string.simps) simp
qed

lemma is_digit_not_space: "is_digit c \<Longrightarrow> \<not> is_space c"
  by (auto simp: is_digit_def is_space_def)

lemma exp_string_shape:
  "\<exists>s ds. exp_string e = s # ds \<and> (s = CHR ''+'' \<or> s = CHR ''-'') \<and> list_all is_digit ds \<and> 2 \<le> length ds"
proof (cases "\<bar>e\<bar> < 10")
  case True
  have "is_digit CHR ''0''" by (simp add: is_digit_def)
  then show ?thesis
    using True dec_string_digits [of "nat \<bar>e\<bar>"] dec_string_length(1) [of "nat \<bar>e\<bar>"]
    by (auto simp: exp_string_def)
next
  case False
  then have "10 \<le> nat \<bar>e\<bar>" by simp
  from dec_string_length(2) [OF this] show ?thesis
    using False dec_string_digits [of "nat \<bar>e\<bar>"] by (auto simp: exp_string_def)
qed

lemma format_9E_shape:
  "\<exists>d ds s es. format_9E v = (if v < 0 then ''-'' else []) @ d # CHR ''.'' # ds @ CHR ''E'' # s # es \<and>
      is_digit d \<and> length ds = 9 \<and> list_all is_digit ds \<and> (s = CHR ''+'' \<or> s = CHR ''-'') \<and>
      list_all is_digit es \<and> 2 \<le> length es"
proof -
  obtain m e where me: "sci_round \<bar>v\<bar> = (m, e)" by (cases "sci_round \<bar>v\<bar>")
  obtain s es where es: "exp_string e = s # es" "s = CHR ''+'' \<or> s = CHR ''-''"
    "list_all is_digit es" "2 \<le> length es"
    using exp_string_shape [of e] by blast
  let ?ds = "map (\<lambda>k. digit_char (m div 10 ^ k mod 10)) [8, 7, 6, 5, 4, 3, 2, 1, 0]"
  have "format_9E v = (if v < 0 then ''-'' else []) @
      digit_char (m div 10 ^ 9 mod 10) # CHR ''.'' # ?ds @ CHR ''E'' # s # es"
    by (simp add: format_9E_def me es(1))
  moreover have "list_all is_digit ?ds" by (simp add: is_digit_digit_char)
  moreover have "length ?ds = 9" by simp
  ultimately show ?thesis using es(2-4) is_digit_digit_char by blast
qed

lemma format_9E_is_sci9: "is_sci9 (format_9E v)"
proof -
  obtain d ds s es where f: "format_9E v = (if v < 0 then ''-'' else []) @ d # CHR ''.'' # ds @ CHR ''E'' # s # es"
    and p: "is_digit d" "length ds = 9" "list_all is_digit ds" "s = CHR ''+'' \<or> s = CHR ''-''"
      "list_all is_digit es" "2 \<le> length es"
    using format_9E_shape [of v] by blast
  have d: "d \<noteq> CHR ''-''" using p(1) by (auto simp: is_digit_def)
  let ?u = "d # CHR ''.'' # ds @ CHR ''E'' # s # es"
  have u: "(if format_9E v \<noteq> [] \<and> hd (format_9E v) = CHR ''-'' then tl (format_9E v) else format_9E v) = ?u"
    using d by (simp add: f)
  have "?u ! 11 = CHR ''E''" "?u ! 12 = s" "drop 13 ?u = es" "take 9 (drop 2 ?u) = ds"
    using p(2) by (simp_all add: nth_append nth_Cons')
  then show ?thesis
    unfolding is_sci9_def u Let_def using p by simp
qed

lemma format_9E_good: "good_token (format_9E v)"
proof -
  obtain d ds s es where f: "format_9E v = (if v < 0 then ''-'' else []) @ d # CHR ''.'' # ds @ CHR ''E'' # s # es"
    and p: "is_digit d" "length ds = 9" "list_all is_digit ds" "s = CHR ''+'' \<or> s = CHR ''-''"
      "list_all is_digit es" "2 \<le> length es"
    using format_9E_shape [of v] by blast
  have "\<not> is_space c" if "c \<in> set (format_9E v)" for c
  proof -
    from that have "c = CHR ''-'' \<or> c = CHR ''.'' \<or> c = CHR ''E'' \<or> c = CHR ''+'' \<or> is_digit c"
      using p by (auto simp: f list_all_iff split: if_splits)
    then show ?thesis by (auto simp: is_space_def dest: is_digit_not_space)
  qed
  moreover have "length (format_9E v) \<noteq> 1" using p(2) by (simp add: f)
  then have "format_9E v \<noteq> ''#''" by auto
  moreover have "format_9E v \<noteq> []" by (simp add: f)
  ultimately show ?thesis by (simp add: good_token_def)
qed

lemma value_line_simps [simp]:
  "value_line [] = []"
  "value_line (v # g) = ''  '' @ format_9E v @ value_line g"
  "value_line (g @ h) = value_line g @ value_line h"
  by (simp_all add: value_line_def)

lemma newline_is_space: "is_space (CHR 0x0A)"
  by (simp add: is_space_def)

lemma format_9E_no_newline: "CHR 0x0A \<notin> set (format_9E v)"
  using format_9E_good [of v] newline_is_space by (auto simp: good_token_def)

lemma value_line_no_newline: "CHR 0x0A \<notin> set (value_line g)"
  by (induction g) (simp_all add: format_9E_no_newline)

lemma value_line_hd: "g \<noteq> [] \<Longrightarrow> value_line g \<noteq> [] \<and> is_space (hd (value_line g))"
  by (cases g) (simp_all add: is_space_def)

lemma split_ws_value_line:
  assumes "r = [] \<or> is_space (hd r)"
  shows "split_ws (value_line g @ r) = map format_9E g @ split_ws r"
proof (induction g)
  case Nil
  then show ?case by simp
next
  case (Cons v g)
  have sp: "is_space CHR '' ''" by (simp add: is_space_def)
  have rest: "value_line g @ r = [] \<or> is_space (hd (value_line g @ r))"
    using assms value_line_hd [of g] by (cases g) auto
  have "split_ws (value_line (v # g) @ r) = split_ws (format_9E v @ value_line g @ r)"
    using sp by simp
  also have "\<dots> = format_9E v # split_ws (value_line g @ r)"
    using format_9E_good [of v] rest by (intro split_ws_token) (auto simp: good_token_def)
  finally show ?case using Cons.IH by simp
qed

lemma write_values_partial:
  "c mod 5 + length xs < 5 \<Longrightarrow> write_values c (xs @ ys) = value_line xs @ write_values (c + length xs) ys"
proof (induction xs arbitrary: c)
  case Nil
  then show ?case by simp
next
  case (Cons x xs)
  from Cons.prems have "c mod 5 < 4" by simp
  then have 1: "(c + 1) mod 5 = c mod 5 + 1" by presburger
  with Cons.prems have "(c + 1) mod 5 + length xs < 5" "(c + 1) mod 5 \<noteq> 0" by simp_all
  then show ?case using Cons.IH [of "c + 1"] by simp
qed

lemma write_values_short:
  assumes "c mod 5 = 0" "length vs < 5"
  shows "write_values c vs = value_line vs"
  using write_values_partial [of c vs "[]"] assms by simp

lemma write_values_full:
  assumes "c mod 5 = 0" "5 \<le> length vs"
  shows "write_values c vs = value_line (take 5 vs) @ CHR 0x0A # write_values (c + 5) (drop 5 vs)"
proof -
  have vs: "vs = take 4 vs @ vs ! 4 # drop 5 vs"
    using assms(2) id_take_nth_drop [of 4 vs] by simp
  have t5: "take 5 vs = take 4 vs @ [vs ! 4]"
    using assms(2) take_Suc_conv_app_nth [of 4 vs] by simp
  have l4: "length (take 4 vs) = 4" using assms(2) by simp
  have "write_values c vs = write_values c (take 4 vs @ vs ! 4 # drop 5 vs)"
    using vs by simp
  also have "\<dots> = value_line (take 4 vs) @ write_values (c + 4) (vs ! 4 # drop 5 vs)"
    using write_values_partial [of c "take 4 vs" "vs ! 4 # drop 5 vs"] assms(1) l4 by simp
  also have "write_values (c + 4) (vs ! 4 # drop 5 vs) =
      ''  '' @ format_9E (vs ! 4) @ CHR 0x0A # write_values (c + 5) (drop 5 vs)"
  proof -
    have e: "c + 4 + 1 = c + 5" by simp
    have m: "(c + 5) mod 5 = 0" using assms(1) by simp
    show ?thesis unfolding write_values.simps e m by simp
  qed
  finally show ?thesis by (simp add: t5)
qed

lemma file_lines_write_values:
  "c mod 5 = 0 \<Longrightarrow> file_lines (write_values c vs) =
     map (\<lambda>g. value_line g @ (if length g = 5 then [CHR 0x0A] else [])) (groups5 vs)"
proof (induction vs arbitrary: c rule: groups5.induct)
  case (1 vs)
  show ?case
  proof (cases "vs = []")
    case True
    then show ?thesis by (simp add: groups5.simps)
  next
    case ne: False
    show ?thesis
    proof (cases "length vs < 5")
      case True
      then have "groups5 vs = [vs]" using ne by (simp add: groups5.simps [of vs] groups5.simps [of "[]"])
      moreover have "file_lines (value_line vs) = [value_line vs]"
        using file_lines_append [OF value_line_no_newline, of vs "[]"] value_line_hd [OF ne] by simp
      ultimately show ?thesis using True write_values_short [OF "1.prems" True] by simp
    next
      case False
      then have 5: "5 \<le> length vs" by simp
      have c5: "(c + 5) mod 5 = 0" using "1.prems" by simp
      have "file_lines (write_values c vs) =
          (value_line (take 5 vs) @ [CHR 0x0A]) # file_lines (write_values (c + 5) (drop 5 vs))"
        unfolding write_values_full [OF "1.prems" 5]
        by (rule file_lines_line) (rule value_line_no_newline)
      then show ?thesis
        using "1.IH" [OF ne c5] 5 by (subst groups5.simps) (simp add: ne)
    qed
  qed
qed

lemma groups5_concat: "concat (groups5 vs) = vs"
  by (induction vs rule: groups5.induct) (subst groups5.simps, simp)

lemma groups5_nonempty: "g \<in> set (groups5 vs) \<Longrightarrow> g \<noteq> [] \<and> length g \<le> 5"
proof (induction vs rule: groups5.induct)
  case (1 vs)
  then show ?case by (subst (asm) (2) groups5.simps) (auto split: if_splits)
qed

lemma concat_blocks_nth:
  assumes "\<forall>b \<in> set bs. length b = m" "i < length bs * m"
  shows "concat bs ! i = bs ! (i div m) ! (i mod m)"
  using assms
proof (induction bs arbitrary: i)
  case Nil
  then show ?case by simp
next
  case (Cons b bs)
  have m: "0 < m" using Cons.prems(2) by (cases m) auto
  show ?case
  proof (cases "i < m")
    case True
    then show ?thesis using Cons.prems by (simp add: nth_append)
  next
    case False
    then have "i - m < length bs * m" using Cons.prems(2) by auto
    from Cons.IH [OF _ this] Cons.prems(1)
    have "concat bs ! (i - m) = bs ! ((i - m) div m) ! ((i - m) mod m)" by simp
    moreover have "(i - m) mod m = i mod m" using False by (simp add: le_mod_geq)
    moreover have "i div m = Suc ((i - m) div m)" using False m by (simp add: le_div_geq)
    ultimately show ?thesis using False Cons.prems(1) by (simp add: nth_append)
  qed
qed

lemma length_concat_blocks:
  "\<forall>b \<in> set bs. length b = m \<Longrightarrow> length (concat bs) = length bs * m"
  by (induction bs) simp_all

lemma length_loop_order: "length (loop_order (n1, n2, n3)) = n1 * n2 * n3"
proof -
  have "length (concat (map (\<lambda>y. map (\<lambda>x. (x, y, z)) [0..<n1]) [0..<n2])) = n2 * n1" for z :: nat
    by (subst length_concat_blocks [where m = n1]) auto
  then show ?thesis
    unfolding loop_order_def
    by (simp add: length_concat_blocks [where m = "n2 * n1"] mult.commute mult.left_commute)
qed

lemma loop_order_nth:
  assumes "i < n1 * n2 * n3"
  shows "loop_order (n1, n2, n3) ! i = (i mod n1, i div n1 mod n2, i div (n1 * n2))"
proof -
  let ?row = "\<lambda>z y. map (\<lambda>x. (x, y, z)) [0..<n1]"
  let ?plane = "\<lambda>z. concat (map (?row z) [0..<n2])"
  have lp: "length (?plane z) = n2 * n1" for z :: nat
    by (subst length_concat_blocks [where m = n1]) auto
  have i: "i < length (map ?plane [0..<n3]) * (n2 * n1)"
    using assms by (simp add: mult.commute mult.left_commute)
  have z: "i div (n2 * n1) < n3"
    using assms by (simp add: less_mult_imp_div_less mult.commute mult.left_commute)
  have pos: "0 < n1" "0 < n2" using assms by (cases n1; cases n2; simp)+
  have j: "i mod (n2 * n1) < length (map (?row (i div (n2 * n1))) [0..<n2]) * n1"
    using pos by simp
  have y: "i mod (n2 * n1) div n1 < n2"
    using pos by (simp add: less_mult_imp_div_less)
  have "loop_order (n1, n2, n3) ! i = ?plane (i div (n2 * n1)) ! (i mod (n2 * n1))"
    unfolding loop_order_def prod.case
    using concat_blocks_nth [of "map ?plane [0..<n3]" "n2 * n1" i] lp i z by simp
  also have "\<dots> = ?row (i div (n2 * n1)) (i mod (n2 * n1) div n1) ! (i mod (n2 * n1) mod n1)"
    using concat_blocks_nth [of "map (?row (i div (n2 * n1))) [0..<n2]" n1 "i mod (n2 * n1)"] j y
    by simp
  also have "\<dots> = (i mod (n2 * n1) mod n1, i mod (n2 * n1) div n1, i div (n2 * n1))"
    using pos by simp
  also have "i mod (n2 * n1) mod n1 = i mod n1"
    by (simp add: mod_mult2_eq mult.commute)
  also have "i mod (n2 * n1) div n1 = i div n1 mod n2"
    using pos by (simp add: mod_mult2_eq mult.commute)
  finally show ?thesis by (simp add: mult.commute)
qed

lemma loop_order_index:
  assumes "x < n1" "y < n2" "z < n3"
  shows "x + n1 * (y + n2 * z) < n1 * n2 * n3"
    and "loop_order (n1, n2, n3) ! (x + n1 * (y + n2 * z)) = (x, y, z)"
proof -
  have "y + n2 * z < n2 * n3"
  proof -
    have "y + n2 * z < n2 * (z + 1)" using assms(2) by simp
    also have "\<dots> \<le> n2 * n3" using assms(3) by (intro mult_le_mono2) simp
    finally show ?thesis .
  qed
  then have "x + n1 * (y + n2 * z) < n1 * ((y + n2 * z) + 1)" using assms(1) by simp
  also have "\<dots> \<le> n1 * (n2 * n3)" using \<open>y + n2 * z < n2 * n3\<close> by (intro mult_le_mono2) simp
  finally show lt: "x + n1 * (y + n2 * z) < n1 * n2 * n3" by (simp add: mult.assoc)
  have "(x + n1 * (y + n2 * z)) div (n1 * n2) = z"
    using assms by (simp add: div_mult2_eq)
  then show "loop_order (n1, n2, n3) ! (x + n1 * (y + n2 * z)) = (x, y, z)"
    using loop_order_nth [OF lt] assms by simp
qed

lemma loop_order_inj:
  assumes "i < n1 * n2 * n3" "j < n1 * n2 * n3"
    "loop_order (n1, n2, n3) ! i = loop_order (n1, n2, n3) ! j"
  shows "i = j"
proof -
  from assms have e: "i mod n1 = j mod n1" "i div n1 mod n2 = j div n1 mod n2"
    "i div (n1 * n2) = j div (n1 * n2)"
    by (simp_all add: loop_order_nth)
  have d: "k = n1 * (n2 * (k div (n1 * n2)) + k div n1 mod n2) + k mod n1" for k
    by (simp add: div_mult2_eq)
  show ?thesis by (subst d [of i], subst d [of j]) (simp add: e)
qed

lemma loop_order_in_shape:
  assumes "i < n1 * n2 * n3"
  shows "in_shape (n1, n2, n3) (loop_order (n1, n2, n3) ! i)"
proof -
  have pos: "0 < n1" "0 < n2" using assms by (cases n1; cases n2; simp)+
  have "i div (n1 * n2) < n3" using assms by (simp add: less_mult_imp_div_less mult.commute)
  then show ?thesis using pos by (simp add: loop_order_nth [OF assms] in_shape_def)
qed

lemma to_index_triple [simp]: "to_index (x, y, z) = (int x, int y, int z)"
  by (simp add: to_index_def)

lemma fits_to_index: "in_shape s p \<Longrightarrow> fits s (to_index p)"
  by (cases s; cases p) (simp add: in_shape_def fits_def to_index_def)

lemma wrap_to_index: "in_shape s p \<Longrightarrow> wrap s (to_index p) = p"
  by (cases s; cases p) (simp add: in_shape_def wrap_def to_index_def)

lemma fill_loop_scatter:
  "c + length ps \<le> length temp \<Longrightarrow>
     fill_loop temp a c ps = scatter_loop a (zip (map to_index ps) (drop c temp))"
proof (induction ps arbitrary: a c)
  case Nil
  then show ?case by simp
next
  case (Cons p ps)
  obtain x y z where p: "p = (x, y, z)" by (cases p)
  from Cons.prems have c: "c < length temp" by simp
  then have d: "drop c temp = temp ! c # drop (c + 1) temp"
    by (simp add: Cons_nth_drop_Suc)
  have "fill_loop temp a' (c + 1) ps = scatter_loop a' (zip (map to_index ps) (drop (c + 1) temp))" for a'
    using Cons.prems by (intro Cons.IH) simp
  then show ?case
    unfolding d using c by (simp add: p ebind_def split: sum.splits)
qed


lemma fill_loop_cells:
  assumes "wf_array a" "shape a = (n1, n2, n3)" "n1 * n2 * n3 \<le> length temp"
  shows "\<exists>a'. fill_loop temp a 0 (loop_order (n1, n2, n3)) = Inr a' \<and> wf_array a' \<and>
           shape a' = (n1, n2, n3) \<and>
           (\<forall>i < n1 * n2 * n3. cell a' (loop_order (n1, n2, n3) ! i) = temp ! i)"
proof -
  let ?s = "(n1, n2, n3)"
  let ?ps = "loop_order ?s"
  let ?els = "zip (map to_index ?ps) temp"
  have len: "length ?ps = n1 * n2 * n3" by (rule length_loop_order)
  have lels: "length ?els = n1 * n2 * n3" using len assms(3) by simp
  have nth: "?els ! i = (to_index (?ps ! i), temp ! i)" if "i < n1 * n2 * n3" for i
    using that len assms(3) by simp
  have run: "fill_loop temp a 0 ?ps = scatter_loop a ?els"
    using fill_loop_scatter [of 0 ?ps temp a] len assms(3) by simp
  have fit: "\<forall>el \<in> set ?els. fits (shape a) (fst el)"
  proof
    fix el assume "el \<in> set ?els"
    then obtain i where i: "i < n1 * n2 * n3" "el = ?els ! i"
      using lels by (metis in_set_conv_nth)
    then show "fits (shape a) (fst el)"
      using nth [OF i(1)] loop_order_in_shape [OF i(1)] by (simp add: assms(2) fits_to_index)
  qed
  from scatter_loop_total [OF assms(1) fit] obtain a' where a': "scatter_loop a ?els = Inr a'" ..
  note A = scatter_loop_Inr [OF a' assms(1)]
  have "cell a' (?ps ! i) = temp ! i" if i: "i < n1 * n2 * n3" for i
  proof -
    have w: "wrap (shape a) (fst (?els ! k)) = ?ps ! k" if "k < n1 * n2 * n3" for k
      using nth [OF that] loop_order_in_shape [OF that] by (simp add: assms(2) wrap_to_index)
    have last: "\<forall>k. i < k \<and> k < length ?els \<longrightarrow>
        wrap (shape a) (fst (?els ! k)) \<noteq> wrap (shape a) (fst (?els ! i))"
    proof (intro allI impI)
      fix k assume k: "i < k \<and> k < length ?els"
      then have kN: "k < n1 * n2 * n3" unfolding lels by simp
      show "wrap (shape a) (fst (?els ! k)) \<noteq> wrap (shape a) (fst (?els ! i))"
      proof
        assume "wrap (shape a) (fst (?els ! k)) = wrap (shape a) (fst (?els ! i))"
        then have "?ps ! k = ?ps ! i" unfolding w [OF kN] w [OF i] .
        from loop_order_inj [OF kN i this] k show False by simp
      qed
    qed
    have "i < length ?els" unfolding lels using i .
    from last_write_last [OF this last]
    have "last_write (shape a) ?els (?ps ! i) = Some (temp ! i)"
      using w [OF i] nth [OF i] by simp
    moreover have "in_shape (shape a) (?ps ! i)"
      using loop_order_in_shape [OF i] by (simp add: assms(2))
    ultimately show ?thesis using scatter_loop_cell [OF a' assms(1)] by simp
  qed
  then show ?thesis using run a' A assms(2) by auto
qed

lemma floats_all:
  "\<forall>t \<in> set ts. pyfloat t \<noteq> None \<Longrightarrow> floats pyfloat ts = Inr (map (the \<circ> pyfloat) ts)"
  by (induction ts) (auto simp: ebind_def)

lemma value_tokens_simps [simp]:
  "value_tokens [] = []"
  "value_tokens (l # ls) = (if is_header l then [] else split_ws l) @ value_tokens ls"
  "value_tokens (ls @ ms) = value_tokens ls @ value_tokens ms"
  by (simp_all add: value_tokens_def)

lemma read_line_ok:
  assumes "line_ok pyfloat l" "count st \<noteq> 1"
  shows "read_line pyfloat st l =
    Inr \<lparr>count = count st + 1, nr = nr st,
         tempcharge = tempcharge st @ map (the \<circ> pyfloat) (value_tokens [l])\<rparr>"
proof -
  obtain t ts where ws: "split_ws l = t # ts"
    using assms(1) by (cases "split_ws l") (auto simp: line_ok_def)
  show ?thesis
  proof (cases "t = ''#''")
    case True
    then show ?thesis using assms(2) ws by (simp add: read_line_def ebind_def is_header_def)
  next
    case False
    then have "\<forall>u \<in> set (t # ts). pyfloat u \<noteq> None"
      using assms(1) ws by (simp add: line_ok_def is_header_def)
    from floats_all [OF this] show ?thesis
      using assms(2) ws False by (simp add: read_line_def ebind_def is_header_def)
  qed
qed

lemma read_line_dims:
  assumes "line_ok pyfloat l" "count st = 1" "read_nr (split_ws l) = Inr d"
  shows "read_line pyfloat st l =
    Inr \<lparr>count = 2, nr = d, tempcharge = tempcharge st @ map (the \<circ> pyfloat) (value_tokens [l])\<rparr>"
proof -
  obtain t ts where ws: "split_ws l = t # ts"
    using assms(1) by (cases "split_ws l") (auto simp: line_ok_def)
  show ?thesis
  proof (cases "t = ''#''")
    case True
    then show ?thesis using assms(2,3) ws by (simp add: read_line_def ebind_def is_header_def)
  next
    case False
    then have "\<forall>u \<in> set (t # ts). pyfloat u \<noteq> None"
      using assms(1) ws by (simp add: line_ok_def is_header_def)
    from floats_all [OF this] show ?thesis
      using assms(2,3) ws False by (simp add: read_line_def ebind_def is_header_def)
  qed
qed

lemma read_lines_values:
  assumes "2 \<le> count st" "\<forall>l \<in> set ls. line_ok pyfloat l"
  shows "read_lines pyfloat st ls =
    Inr \<lparr>count = count st + length ls, nr = nr st,
         tempcharge = tempcharge st @ map (the \<circ> pyfloat) (value_tokens ls)\<rparr>"
  using assms
proof (induction ls arbitrary: st)
  case Nil
  then show ?case by simp
next
  case (Cons l ls)
  let ?st = "\<lparr>count = count st + 1, nr = nr st,
         tempcharge = tempcharge st @ map (the \<circ> pyfloat) (value_tokens [l])\<rparr>"
  have "read_line pyfloat st l = Inr ?st"
    using Cons.prems by (intro read_line_ok) auto
  moreover have "read_lines pyfloat ?st ls = Inr \<lparr>count = count ?st + length ls, nr = nr ?st,
         tempcharge = tempcharge ?st @ map (the \<circ> pyfloat) (value_tokens ls)\<rparr>"
    using Cons.prems by (intro Cons.IH) auto
  ultimately show ?case by simp
qed

lemma read_lines_file:
  assumes "\<forall>l \<in> set (l0 # l1 # rest). line_ok pyfloat l" "read_nr (split_ws l1) = Inr d"
  shows "read_lines pyfloat \<lparr>count = 0, nr = (0, 0, 0), tempcharge = []\<rparr> (l0 # l1 # rest) =
    Inr \<lparr>count = 2 + length rest, nr = d,
         tempcharge = map (the \<circ> pyfloat) (value_tokens (l0 # l1 # rest))\<rparr>"
proof -
  let ?s0 = "\<lparr>count = 0, nr = (0, 0, 0), tempcharge = []\<rparr> :: 'a reader"
  let ?s1 = "\<lparr>count = 1, nr = (0, 0, 0), tempcharge = map (the \<circ> pyfloat) (value_tokens [l0])\<rparr>"
  let ?s2 = "\<lparr>count = 2, nr = d,
      tempcharge = tempcharge ?s1 @ map (the \<circ> pyfloat) (value_tokens [l1])\<rparr>"
  have 0: "read_line pyfloat ?s0 l0 = Inr ?s1"
    using read_line_ok [of pyfloat l0 ?s0] assms(1) by simp
  have 1: "read_line pyfloat ?s1 l1 = Inr ?s2"
    using read_line_dims [of pyfloat l1 ?s1 d] assms by simp
  have 2: "read_lines pyfloat ?s2 rest = Inr \<lparr>count = count ?s2 + length rest, nr = nr ?s2,
         tempcharge = tempcharge ?s2 @ map (the \<circ> pyfloat) (value_tokens rest)\<rparr>"
    using assms(1) by (intro read_lines_values) auto
  show ?thesis using 0 1 2 by simp
qed

lemma nr_item_ok:
  assumes "i < length ws" "py_int (ws ! i) = Some (int n)" "n < 2 ^ 63"
  shows "nr_item ws i = Inr (int n)"
proof -
  have "int n < 2 ^ 63" using assms(3) by (metis of_nat_less_iff of_nat_numeral of_nat_power)
  moreover have "- (2 ^ 63) \<le> int n" by (rule order_trans [of _ 0]) simp_all
  ultimately show ?thesis using assms(1,2) by (simp add: nr_item_def)
qed

lemma read_nr_ok:
  assumes "4 \<le> length ws"
    "py_int (ws ! 1) = Some (int n1)" "py_int (ws ! 2) = Some (int n2)" "py_int (ws ! 3) = Some (int n3)"
    "n1 < 2 ^ 63" "n2 < 2 ^ 63" "n3 < 2 ^ 63"
  shows "read_nr ws = Inr (int n1, int n2, int n3)"
  using assms by (simp add: read_nr_def ebind_def nr_item_ok)

lemma read_postqe_output_file_lines:
  assumes "file_lines content = l0 # l1 # rest"
    and "\<forall>l \<in> set (l0 # l1 # rest). line_ok pyfloat l"
    and "read_nr (split_ws l1) = Inr (int n1, int n2, int n3)"
    and "n1 * n2 * n3 \<le> length (value_tokens (l0 # l1 # rest))"
  shows "\<exists>charge. read_postqe_output_file pyfloat content = Inr charge \<and> wf_array charge \<and>
           shape charge = (n1, n2, n3) \<and>
           (\<forall>i < n1 * n2 * n3. cell charge (loop_order (n1, n2, n3) ! i) =
              the (pyfloat (value_tokens (l0 # l1 # rest) ! i)))"
proof -
  let ?temp = "map (the \<circ> pyfloat) (value_tokens (l0 # l1 # rest))"
  let ?Z = "\<lparr>shape = (n1, n2, n3), cells = replicate n1 (replicate n2 (replicate n3 0))\<rparr>"
  have len: "n1 * n2 * n3 \<le> length ?temp" using assms(4) by simp
  from fill_loop_cells [OF wf_zeros _ len, of n1 n2 n3 0] obtain a' where
    a': "fill_loop ?temp ?Z 0 (loop_order (n1, n2, n3)) = Inr a'" "wf_array a'" "shape a' = (n1, n2, n3)"
    and c: "\<And>i. i < n1 * n2 * n3 \<Longrightarrow> cell a' (loop_order (n1, n2, n3) ! i) = ?temp ! i"
    by auto
  have "read_postqe_output_file pyfloat content = Inr a'"
    using a'(1) by (simp add: read_postqe_output_file_def assms(1) read_lines_file [OF assms(2,3)]
        ebind_def np_zeros_nat del: read_lines.simps)
  moreover have "cell a' (loop_order (n1, n2, n3) ! i) = the (pyfloat (value_tokens (l0 # l1 # rest) ! i))"
    if "i < n1 * n2 * n3" for i
  proof -
    have "i < length (value_tokens (l0 # l1 # rest))" using that assms(4) by (rule less_le_trans)
    then show ?thesis using c [OF that] by (simp only: nth_map o_apply)
  qed
  ultimately show ?thesis using a'(2,3) by blast
qed

lemma ndigits_pos: "0 < ndigits n"
  by (subst ndigits.simps) simp

lemma ndigits_upper: "n < 10 ^ ndigits n"
proof (induction n rule: ndigits.induct)
  case (1 n)
  show ?case
  proof (cases "n < 10")
    case True
    then show ?thesis by (subst ndigits.simps) simp
  next
    case False
    with 1 have "n div 10 < 10 ^ ndigits (n div 10)" by simp
    then have "n div 10 + 1 \<le> 10 ^ ndigits (n div 10)" by simp
    then have "10 * (n div 10 + 1) \<le> 10 * 10 ^ ndigits (n div 10)" by (rule mult_le_mono2)
    moreover have "n < 10 * (n div 10 + 1)" by presburger
    ultimately show ?thesis using False by (subst ndigits.simps) simp
  qed
qed

lemma ndigits_lower: "0 < n \<Longrightarrow> 10 ^ (ndigits n - 1) \<le> n"
proof (induction n rule: ndigits.induct)
  case (1 n)
  show ?case
  proof (cases "n < 10")
    case True
    then show ?thesis using "1.prems" by (subst ndigits.simps) simp
  next
    case False
    then have "0 < n div 10" by presburger
    with 1 False have "10 ^ (ndigits (n div 10) - 1) \<le> n div 10" by simp
    then have "10 * 10 ^ (ndigits (n div 10) - 1) \<le> 10 * (n div 10)" by (rule mult_le_mono2)
    moreover have "10 * (n div 10) \<le> n" by presburger
    moreover have "(10::nat) * 10 ^ (ndigits (n div 10) - 1) = 10 ^ ndigits (n div 10)"
      using ndigits_pos [of "n div 10"] by (cases "ndigits (n div 10)") simp_all
    ultimately show ?thesis using False by (subst ndigits.simps) simp
  qed
qed

lemma pow10_le_real:
  assumes "(10::nat) ^ j \<le> n"
  shows "(10::real) ^ j \<le> real n"
  using assms by simp

lemma real_le_pow10:
  assumes "n \<le> (10::nat) ^ j"
  shows "real n \<le> (10::real) ^ j"
  using assms by simp

lemma dec_exp_bounds:
  assumes "0 < a"
  shows "10 powi dec_exp a \<le> a" and "a < 10 powi (dec_exp a + 1)"
proof -
  have "10 powi dec_exp a \<le> a \<and> a < 10 powi (dec_exp a + 1)"
  proof (cases "1 \<le> a")
    case True
    define n where "n = nat \<lfloor>a\<rfloor>"
    define k where "k = ndigits n"
    have n1: "0 < n" using True by (simp add: n_def)
    have rn: "real n \<le> a" "a < real n + 1" using True by (simp_all add: n_def)
    have k: "0 < k" by (simp add: k_def ndigits_pos)
    have e: "dec_exp a = int (k - 1)" using True k by (simp add: dec_exp_def n_def k_def)
    have "(10::nat) ^ (k - 1) \<le> n" unfolding k_def using n1 by (rule ndigits_lower)
    then have "(10::real) ^ (k - 1) \<le> real n" by (rule pow10_le_real)
    then have lo: "(10::real) ^ (k - 1) \<le> a" using rn(1) by (rule order_trans)
    have "n + 1 \<le> 10 ^ k" unfolding k_def using ndigits_upper [of n] by simp
    then have "real (n + 1) \<le> (10::real) ^ k" by (rule real_le_pow10)
    then have "real n + 1 \<le> (10::real) ^ k" by (simp only: of_nat_add of_nat_1)
    with rn(2) have hi: "a < (10::real) ^ k" by (rule less_le_trans)
    have k1: "int (k - 1) + 1 = int k" using k by simp
    have p1: "10 powi int (k - 1) = (10::real) ^ (k - 1)" by (rule power_int_of_nat)
    have p2: "10 powi (int (k - 1) + 1) = (10::real) ^ k" unfolding k1 by (rule power_int_of_nat)
    show ?thesis unfolding e p1 p2 using lo hi by (rule conjI)
  next
    case False
    define m where "m = \<lceil>1 / a\<rceil>"
    define n where "n = nat (m - 1)"
    define k where "k = ndigits n"
    have inv: "1 < 1 / a" using False assms by simp
    have m2: "2 \<le> m" using inv unfolding m_def by linarith
    have n1: "0 < n" using m2 by (simp add: n_def)
    have rn: "real n < 1 / a" "1 / a \<le> real n + 1"
    proof -
      have "real_of_int (m - 1) < 1 / a" "1 / a \<le> real_of_int m" unfolding m_def by linarith+
      moreover have "real n = real_of_int (m - 1)" using m2 by (simp add: n_def)
      ultimately show "real n < 1 / a" "1 / a \<le> real n + 1" by simp_all
    qed
    have k: "0 < k" by (simp add: k_def ndigits_pos)
    have e: "dec_exp a = - int k" using False by (simp add: dec_exp_def m_def n_def k_def)
    have "(10::nat) ^ (k - 1) \<le> n" unfolding k_def using n1 by (rule ndigits_lower)
    then have "(10::real) ^ (k - 1) \<le> real n" by (rule pow10_le_real)
    then have lo: "(10::real) ^ (k - 1) < 1 / a" using rn(1) by (rule le_less_trans)
    have "n + 1 \<le> 10 ^ k" unfolding k_def using ndigits_upper [of n] by simp
    then have "real (n + 1) \<le> (10::real) ^ k" by (rule real_le_pow10)
    then have "real n + 1 \<le> (10::real) ^ k" by (simp only: of_nat_add of_nat_1)
    with rn(2) have hi: "1 / a \<le> (10::real) ^ k" by (rule order_trans)
    have 1: "10 powi (- int k) = 1 / (10::real) ^ k"
      by (simp only: power_int_minus_divide power_int_of_nat)
    have k1: "- int k + 1 = - int (k - 1)" using k by simp
    have 2: "10 powi (- int k + 1) = 1 / (10::real) ^ (k - 1)"
      unfolding k1 by (simp only: power_int_minus_divide power_int_of_nat)
    have pk: "0 < (10::real) ^ k" "0 < (10::real) ^ (k - 1)" by simp_all
    have "1 \<le> (10::real) ^ k * a"
      using hi assms by (simp only: pos_divide_le_eq)
    then have "1 / (10::real) ^ k \<le> a"
      using pk(1) by (simp only: pos_divide_le_eq mult.commute)
    moreover have "(10::real) ^ (k - 1) * a < 1"
      using lo assms by (simp only: pos_less_divide_eq)
    then have "a < 1 / (10::real) ^ (k - 1)"
      using pk(2) by (simp only: pos_less_divide_eq mult.commute)
    ultimately show ?thesis by (simp only: e 1 2)
  qed
  then show "10 powi dec_exp a \<le> a" and "a < 10 powi (dec_exp a + 1)" by simp_all
qed

lemma round_half_even_close: "\<bar>real_of_int (round_half_even x) - x\<bar> \<le> 1 / 2"
proof -
  define f where "f = \<lfloor>x\<rfloor>"
  have f: "real_of_int f \<le> x" "x < real_of_int f + 1" unfolding f_def by linarith+
  consider "x - real_of_int f < 1 / 2" | "1 / 2 < x - real_of_int f" | "x - real_of_int f = 1 / 2"
    by linarith
  then show ?thesis
  proof cases
    case 1
    then have "round_half_even x = f" by (simp add: round_half_even_def f_def)
    then show ?thesis using 1 f by simp
  next
    case 2
    then have "round_half_even x = f + 1" by (simp add: round_half_even_def f_def)
    then show ?thesis using 2 f by simp
  next
    case 3
    then have "round_half_even x = f \<or> round_half_even x = f + 1"
      by (simp add: round_half_even_def f_def)
    then show ?thesis using 3 f by auto
  qed
qed

lemma round_half_even_ge: "real_of_int k \<le> x \<Longrightarrow> k \<le> round_half_even x"
proof -
  assume "real_of_int k \<le> x"
  then have "k \<le> \<lfloor>x\<rfloor>" by (simp add: le_floor_iff)
  moreover have "\<lfloor>x\<rfloor> \<le> round_half_even x" by (simp add: round_half_even_def)
  ultimately show ?thesis by simp
qed

lemma round_half_even_le: "x \<le> real_of_int k \<Longrightarrow> round_half_even x \<le> k"
proof -
  assume a: "x \<le> real_of_int k"
  show ?thesis
  proof (cases "x = real_of_int k")
    case True
    then show ?thesis by (simp add: round_half_even_def)
  next
    case False
    then have "x < real_of_int k" using a by simp
    then have "\<lfloor>x\<rfloor> < k" by (simp add: floor_less_iff)
    moreover have "round_half_even x \<le> \<lfloor>x\<rfloor> + 1" by (simp add: round_half_even_def)
    ultimately show ?thesis by simp
  qed
qed

lemma sci_round_close:
  assumes "0 < a" "sci_round a = (m, e)"
  shows "\<bar>real m * 10 powi (e - 9) - a\<bar> \<le> 5 / 10 ^ 10 * a"
    and "10 ^ 9 \<le> m" and "m < 10 ^ 10"
proof -
  define e0 where "e0 = dec_exp a"
  define s where "s = a * 10 powi (9 - e0)"
  define m0 where "m0 = round_half_even s"
  define u where "u = (10::real) powi (e0 - 9)"
  note b = dec_exp_bounds [OF assms(1), folded e0_def]
  have up: "0 < u" by (simp add: u_def)
  have ui: "10 powi (9 - e0) = 1 / u"
    using power_int_minus_divide [of "10::real" "e0 - 9"] by (simp add: u_def)
  have p9: "10 powi e0 = 10 ^ 9 * u"
    using power_int_add [of "10::real" 9 "e0 - 9"] by (simp add: u_def)
  have p10: "10 powi (e0 + 1) = 10 ^ 10 * u"
    using power_int_add [of "10::real" 10 "e0 - 9"] by (simp add: u_def add.commute)
  have a: "a = s * u" using up by (simp add: s_def ui)
  have s9: "10 ^ 9 \<le> s"
  proof -
    have "10 ^ 9 * u \<le> s * u" using b(1) unfolding p9 a .
    then show ?thesis using up by (simp only: mult_le_cancel_right_pos)
  qed
  have s10: "s < 10 ^ 10"
  proof -
    have "s * u < 10 ^ 10 * u" using b(2) unfolding p10 a .
    then show ?thesis using up by (simp only: mult_less_cancel_right_pos)
  qed
  have "real_of_int (10 ^ 9) \<le> s" using s9 by simp
  then have m9: "10 ^ 9 \<le> m0" unfolding m0_def by (rule round_half_even_ge)
  have "s \<le> real_of_int (10 ^ 10)" using s10 by simp
  then have m10: "m0 \<le> 10 ^ 10" unfolding m0_def by (rule round_half_even_le)
  have close: "\<bar>real_of_int m0 - s\<bar> \<le> 1 / 2" unfolding m0_def by (rule round_half_even_close)
  have rm0: "real (nat m0) = real_of_int m0" using m9 by simp
  have val: "real m * 10 powi (e - 9) = real_of_int m0 * u \<and> 10 ^ 9 \<le> m \<and> m < 10 ^ 10"
  proof (cases "nat m0 = 10 ^ 10")
    case True
    then have me: "m = 10 ^ 9" "e = e0 + 1"
      using assms by (auto simp: sci_round_def Let_def e0_def s_def m0_def split: if_splits)
    have "real_of_int m0 = 10 ^ 10" using True rm0 by simp
    moreover have "10 powi (e0 + 1 - 9) = 10 * u"
      using power_int_add [of "10::real" 1 "e0 - 9"] by (simp add: u_def)
    ultimately show ?thesis by (simp add: me)
  next
    case False
    then have me: "m = nat m0" "e = e0"
      using assms by (auto simp: sci_round_def Let_def e0_def s_def m0_def split: if_splits)
    have "nat m0 \<le> 10 ^ 10" using m10 by simp
    then have "nat m0 < 10 ^ 10" using False by simp
    moreover have "10 ^ 9 \<le> nat m0" using m9 by simp
    ultimately show ?thesis using rm0 by (simp add: me u_def)
  qed
  have "\<bar>real_of_int m0 * u - a\<bar> = \<bar>real_of_int m0 - s\<bar> * u"
    unfolding a using up by (simp add: abs_mult flip: left_diff_distrib)
  also have "\<dots> \<le> 1 / 2 * u" using close up by (simp only: mult_le_cancel_right_pos)
  also have "u \<le> a / 10 ^ 9" using b(1) unfolding p9 by simp
  finally have "\<bar>real_of_int m0 * u - a\<bar> \<le> 1 / 2 * (a / 10 ^ 9)" by simp
  then show "\<bar>real m * 10 powi (e - 9) - a\<bar> \<le> 5 / 10 ^ 10 * a" using val by simp
  show "10 ^ 9 \<le> m" "m < 10 ^ 10" using val by simp_all
qed

lemma sci_value_close: "\<bar>sci_value v - v\<bar> \<le> 5 / 10 ^ 10 * \<bar>v\<bar>"
proof (cases "v = 0")
  case True
  then show ?thesis by (simp add: sci_value_def sci_round_def)
next
  case False
  obtain m e where me: "sci_round \<bar>v\<bar> = (m, e)" by (cases "sci_round \<bar>v\<bar>")
  have pos: "0 < \<bar>v\<bar>" using False by simp
  note c = sci_round_close(1) [OF pos me]
  have "sci_value v - v = sgn v * (real m * 10 powi (e - 9) - \<bar>v\<bar>)"
    by (simp add: sci_value_def me right_diff_distrib sgn_mult_abs mult.assoc)
  then have "\<bar>sci_value v - v\<bar> = \<bar>real m * 10 powi (e - 9) - \<bar>v\<bar>\<bar>"
    using False by (simp add: abs_mult abs_sgn_eq)
  then show ?thesis using c by simp
qed

lemma write_charge_alt: "write_charge header charge = header @ write_values 0 (field_values charge)"
  by (simp add: write_charge_def field_values_def)

lemma concat_file_lines: "concat (file_lines s) = s"
  by (induction s) (auto split: list.splits)

lemma write_values_lines: "file_lines (write_values 0 vs) = map body_line (groups5 vs)"
  using file_lines_write_values [of 0 vs] by (simp add: body_line_def)

lemma write_values_concat: "write_values 0 vs = concat (map body_line (groups5 vs))"
  using concat_file_lines [of "write_values 0 vs"] by (simp only: write_values_lines)

lemma split_ws_body_line: "split_ws (body_line g) = map format_9E g"
  using split_ws_value_line [of "if length g = 5 then [CHR 0x0A] else []" g] newline_is_space
  by (simp add: body_line_def)

lemma split_ws_newline: "split_ws (l @ [CHR 0x0A]) = split_ws l"
  using split_ws_space [OF newline_is_space, of l "[]"] by simp

lemma is_header_newline: "is_header (l @ [CHR 0x0A]) = is_header l"
  by (simp add: is_header_def split_ws_newline)

lemma is_header_line_ok: "is_header l \<Longrightarrow> line_ok pyfloat l"
  by (auto simp: is_header_def line_ok_def split: list.splits)

lemma body_line_not_header: "g \<noteq> [] \<Longrightarrow> \<not> is_header (body_line g)"
  using format_9E_good [of "hd g"]
  by (cases g) (auto simp: is_header_def split_ws_body_line good_token_def)

lemma body_line_ok:
  assumes "g \<noteq> []" "\<forall>v \<in> set g. pyfloat (format_9E v) \<noteq> None"
  shows "line_ok pyfloat (body_line g)"
  using assms by (auto simp: line_ok_def split_ws_body_line)

lemma value_tokens_headers: "\<forall>l \<in> set ls. is_header l \<Longrightarrow> value_tokens ls = []"
  by (induction ls) simp_all

lemma value_tokens_body:
  "\<forall>g \<in> set gs. g \<noteq> [] \<Longrightarrow> value_tokens (map body_line gs) = map format_9E (concat gs)"
  by (induction gs) (simp_all add: body_line_not_header split_ws_body_line)

lemma value_tokens_write_values:
  "value_tokens (file_lines (write_values 0 vs)) = map format_9E vs"
  using value_tokens_body [of "groups5 vs"] groups5_nonempty [of _ vs]
  by (simp add: write_values_lines groups5_concat)

lemma file_lines_header:
  assumes "\<forall>l \<in> set hl. CHR 0x0A \<notin> set l"
  shows "file_lines (concat (map (\<lambda>l. l @ [CHR 0x0A]) hl) @ t) =
           map (\<lambda>l. l @ [CHR 0x0A]) hl @ file_lines t"
  using assms
proof (induction hl)
  case Nil
  then show ?case by simp
next
  case (Cons l hl)
  then show ?case using file_lines_line [of l] by simp
qed

lemma length_field_values: "shape charge = (n1, n2, n3) \<Longrightarrow> length (field_values charge) = n1 * n2 * n3"
  by (simp add: field_values_def length_loop_order)

lemma field_values_nth:
  assumes "shape charge = (n1, n2, n3)" "i < n1 * n2 * n3"
  shows "field_values charge ! i = cell charge (loop_order (n1, n2, n3) ! i)"
  using assms by (simp add: field_values_def length_loop_order)

lemma digit_val_digit_char: "d < 10 \<Longrightarrow> digit_val (digit_char d) = d"
proof -
  assume "d < 10"
  then have "d \<in> {0, 1, 2, 3, 4, 5, 6, 7, 8, 9}" by auto
  then show ?thesis by (auto simp: digit_val_def digit_char_def)
qed

lemma digits_value_snoc: "digits_value (ds @ [c]) = 10 * digits_value ds + digit_val c"
  by (simp add: digits_value_def)

lemma digits_value_dec_string: "digits_value (dec_string n) = n"
proof (induction n rule: dec_string.induct)
  case (1 n)
  show ?case
  proof (cases "n < 10")
    case True
    then show ?thesis
      by (subst dec_string.simps) (simp add: digits_value_def digit_val_digit_char)
  next
    case False
    then have "digits_value (dec_string (n div 10)) = n div 10" using 1 by simp
    then show ?thesis
      using False
      by (subst dec_string.simps) (simp add: digits_value_snoc digit_val_digit_char)
  qed
qed

lemma digits_value_positions:
  "digits_value (map (\<lambda>k. digit_char (m div 10 ^ k mod 10)) (rev [0..<n])) = m mod 10 ^ n"
proof (induction n arbitrary: m)
  case 0
  then show ?case by (simp add: digits_value_def)
next
  case (Suc n)
  have "rev [0..<Suc n] = map Suc (rev [0..<n]) @ [0]"
    by (simp add: map_Suc_upt rev_map [symmetric] upt_conv_Cons del: upt_Suc)
  then have "map (\<lambda>k. digit_char (m div 10 ^ k mod 10)) (rev [0..<Suc n]) =
      map (\<lambda>k. digit_char (m div 10 div 10 ^ k mod 10)) (rev [0..<n]) @ [digit_char (m mod 10)]"
    by (simp add: div_mult2_eq o_def)
  then have "digits_value (map (\<lambda>k. digit_char (m div 10 ^ k mod 10)) (rev [0..<Suc n])) =
      10 * ((m div 10) mod 10 ^ n) + m mod 10"
    using Suc [of "m div 10"] by (simp add: digits_value_snoc digit_val_digit_char)
  also have "\<dots> = m mod 10 ^ Suc n"
    by (simp add: mod_mult2_eq)
  finally show ?case .
qed

lemma rev_upt_10: "rev [0..<10] = [9, 8, 7, 6, 5, 4, 3, 2, 1, 0::nat]"
  by (simp add: eval_nat_numeral upt_rec)

lemma digits_value_zero: "digits_value (CHR ''0'' # xs) = digits_value xs"
  by (simp add: digits_value_def digit_val_def)

lemma signed_digits_exp_string: "signed_digits (exp_string e) = Some e"
proof -
  let ?ds = "(if \<bar>e\<bar> < 10 then ''0'' else []) @ dec_string (nat \<bar>e\<bar>)"
  have z: "is_digit CHR ''0''" by (simp add: is_digit_def)
  have d: "list_all is_digit ?ds" using dec_string_digits [of "nat \<bar>e\<bar>"] z by simp
  have n: "?ds \<noteq> []" using dec_string_length(1) [of "nat \<bar>e\<bar>"] by auto
  have v: "digits_value ?ds = nat \<bar>e\<bar>"
    by (simp add: digits_value_zero digits_value_dec_string)
  show ?thesis
  proof (cases "e < 0")
    case True
    then have "exp_string e = CHR ''-'' # ?ds" by (simp add: exp_string_def)
    then show ?thesis using d n v True by (simp add: signed_digits_def)
  next
    case False
    then have "exp_string e = CHR ''+'' # ?ds" by (simp add: exp_string_def)
    then show ?thesis using d n v False by (simp add: signed_digits_def)
  qed
qed

lemma sci_round_less: "sci_round a = (m, e) \<Longrightarrow> 0 \<le> a \<Longrightarrow> m < 10 ^ 10"
proof -
  assume s: "sci_round a = (m, e)" and a: "0 \<le> a"
  show ?thesis
  proof (cases "a = 0")
    case True
    then show ?thesis using s by (simp add: sci_round_def)
  next
    case False
    then have "0 < a" using a by simp
    from sci_round_close(3) [OF this s] show ?thesis .
  qed
qed

lemma decimal_float_format_9E: "decimal_float (format_9E v) = Some (sci_value v)"
proof -
  obtain m e where me: "sci_round \<bar>v\<bar> = (m, e)" by (cases "sci_round \<bar>v\<bar>")
  have m: "m < 10 ^ 10" using me by (rule sci_round_less) simp
  define d where "d = digit_char (m div 10 ^ 9 mod 10)"
  define ds where "ds = map (\<lambda>k. digit_char (m div 10 ^ k mod 10)) [8, 7, 6, 5, 4, 3, 2, 1, 0]"
  define body where "body = d # CHR ''.'' # ds @ CHR ''E'' # exp_string e"
  let ?E = "\<lambda>c. c \<noteq> CHR ''E'' \<and> c \<noteq> CHR ''e''"
  have f: "format_9E v = (if v < 0 then ''-'' else []) @ body"
    by (simp add: format_9E_def me body_def d_def ds_def)
  have dd: "is_digit d" unfolding d_def by (rule is_digit_digit_char)
  have dds: "list_all is_digit ds" unfolding ds_def by (simp add: is_digit_digit_char)
  have lds: "length ds = 9" by (simp add: ds_def)
  have dE: "is_digit c \<Longrightarrow> ?E c" for c by (auto simp: is_digit_def)
  have dsgn: "d \<noteq> CHR ''-''" "d \<noteq> CHR ''+''" using dd by (auto simp: is_digit_def)
  have ndot: "\<not> is_digit CHR ''.''" by (simp add: is_digit_def)
  have hd_tl: "format_9E v \<noteq> []" "(hd (format_9E v) = CHR ''-'') = (v < 0)"
    "(if format_9E v \<noteq> [] \<and> (hd (format_9E v) = CHR ''-'' \<or> hd (format_9E v) = CHR ''+'')
      then tl (format_9E v) else format_9E v) = body"
    using dsgn by (auto simp: f body_def)
  have pre: "\<forall>c \<in> set (d # CHR ''.'' # ds). ?E c"
    using dd dds dE by (auto simp: list_all_iff)
  have mant: "takeWhile ?E body = d # CHR ''.'' # ds"
  proof -
    have "takeWhile ?E ((d # CHR ''.'' # ds) @ CHR ''E'' # exp_string e) = d # CHR ''.'' # ds"
      using pre by (subst takeWhile_append2) auto
    then show ?thesis by (simp add: body_def)
  qed
  have rest: "dropWhile ?E body = CHR ''E'' # exp_string e"
  proof -
    have "dropWhile ?E ((d # CHR ''.'' # ds) @ CHR ''E'' # exp_string e) = CHR ''E'' # exp_string e"
      using pre by (subst dropWhile_append2) auto
    then show ?thesis by (simp add: body_def)
  qed
  have ip: "takeWhile is_digit (d # CHR ''.'' # ds) = [d]"
    "dropWhile is_digit (d # CHR ''.'' # ds) = CHR ''.'' # ds"
    using dd ndot by simp_all
  have "d # ds = map (\<lambda>k. digit_char (m div 10 ^ k mod 10)) (rev [0..<10])"
    unfolding rev_upt_10 by (simp add: d_def ds_def)
  then have val: "digits_value (d # ds) = m"
    using digits_value_positions [of m 10] m by simp
  have "decimal_float (format_9E v) =
      Some ((if v < 0 then - 1 else 1) * real m * 10 powi (e - 9))"
    unfolding decimal_float_def Let_def hd_tl(3) mant rest ip
    using hd_tl(1,2) dds lds val by (simp add: signed_digits_exp_string)
  moreover have "sci_value v = (if v < 0 then - 1 else 1) * real m * 10 powi (e - 9)"
  proof -
    have sv: "sci_value v = sgn v * real m * 10 powi (e - 9)"
      by (simp only: sci_value_def me prod.case)
    show ?thesis
    proof (cases "v = 0")
      case True
      then have "m = 0" using me by (simp add: sci_round_def)
      then show ?thesis unfolding sv by simp
    next
      case False
      then show ?thesis by (cases "v < 0") (simp_all add: sv)
    qed
  qed
  ultimately show ?thesis by simp
qed

lemma rounded_read_close:
  assumes "\<forall>x. \<bar>rd x - x\<bar> \<le> u * \<bar>x\<bar>"
  shows "\<bar>rd (sci_value v) - v\<bar> \<le> (5 / 10 ^ 10 + u * (1 + 5 / 10 ^ 10)) * \<bar>v\<bar>"
proof -
  let ?s = "sci_value v"
  have "\<bar>rd 1 - 1\<bar> \<le> u * \<bar>1\<bar>" using assms by blast
  then have u: "0 \<le> u" by simp
  have c: "\<bar>?s - v\<bar> \<le> 5 / 10 ^ 10 * \<bar>v\<bar>" by (rule sci_value_close)
  have "\<bar>?s\<bar> \<le> \<bar>v\<bar> + \<bar>?s - v\<bar>" by simp
  then have "\<bar>?s\<bar> \<le> (1 + 5 / 10 ^ 10) * \<bar>v\<bar>" using c by (simp add: algebra_simps)
  then have "u * \<bar>?s\<bar> \<le> u * ((1 + 5 / 10 ^ 10) * \<bar>v\<bar>)" using u by (rule mult_left_mono)
  moreover have "\<bar>rd ?s - ?s\<bar> \<le> u * \<bar>?s\<bar>" using assms by blast
  moreover have "\<bar>rd ?s - v\<bar> \<le> \<bar>rd ?s - ?s\<bar> + \<bar>?s - v\<bar>" by simp
  ultimately have "\<bar>rd ?s - v\<bar> \<le> u * ((1 + 5 / 10 ^ 10) * \<bar>v\<bar>) + 5 / 10 ^ 10 * \<bar>v\<bar>"
    using c by linarith
  then show ?thesis by (simp add: algebra_simps)
qed

lemma groups5_length: "length (groups5 vs) = (length vs + 4) div 5"
proof (induction vs rule: groups5.induct)
  case (1 vs)
  show ?case
  proof (cases "vs = []")
    case True
    then show ?thesis by (subst groups5.simps) simp
  next
    case False
    then have "length (groups5 vs) = Suc ((length (drop 5 vs) + 4) div 5)"
      using 1 by (subst groups5.simps) simp
    moreover have "Suc ((n - 5 + 4) div 5) = (n + 4) div 5" if "0 < n" for n :: nat
    proof (cases "5 \<le> n")
      case True
      then obtain m where "n = m + 5" by (metis le_add_diff_inverse2)
      then show ?thesis by simp
    next
      case False
      then have "(n + 4) div 5 = 1" using that by (intro div_nat_eqI) simp_all
      then show ?thesis using False by simp
    qed
    moreover have "0 < length vs" using False by simp
    ultimately show ?thesis by simp
  qed
qed

lemma groups5_nth: "i < length (groups5 vs) \<Longrightarrow> groups5 vs ! i = take 5 (drop (5 * i) vs)"
proof (induction vs arbitrary: i rule: groups5.induct)
  case (1 vs)
  show ?case
  proof (cases "vs = []")
    case True
    then show ?thesis using "1.prems" by (simp add: groups5.simps)
  next
    case False
    then have g: "groups5 vs = take 5 vs # groups5 (drop 5 vs)" by (subst groups5.simps) simp
    show ?thesis
    proof (cases i)
      case 0
      then show ?thesis by (simp add: g)
    next
      case (Suc j)
      then have "j < length (groups5 (drop 5 vs))" using "1.prems" g by simp
      from "1.IH" [OF False this] show ?thesis by (simp add: g Suc add.commute)
    qed
  qed
qed

lemma body_line_last:
  assumes "g \<noteq> []"
  shows "last (body_line g) = CHR 0x0A \<longleftrightarrow> length g = 5"
proof (cases "length g = 5")
  case True
  then show ?thesis by (simp add: body_line_def)
next
  case False
  have "value_line g \<noteq> []" using value_line_hd [OF assms] by simp
  then have "last (value_line g) \<in> set (value_line g)" by (rule last_in_set)
  then have "last (value_line g) \<noteq> CHR 0x0A" using value_line_no_newline [of g] by metis
  then show ?thesis using False by (simp add: body_line_def)
qed





lemmas eval_tokens = is_space_def is_digit_def digit_val_def py_int_def read_nr_def nr_item_def
  ebind_def line_ok_def is_header_def decimal_float_def signed_digits_def digits_value_def

lemmas eval_format = format_9E_def sci_round_def dec_exp_def round_half_even_def exp_string_def
  digit_char_def dec_string.simps ndigits.simps Let_def

section \<open>Facts about the pseudopotential reader\<close>

lemma contains_iff: "contains pat s \<longleftrightarrow> (\<exists>a b. s = a @ pat @ b)"
proof (induction s)
  case Nil
  then show ?case by auto
next
  case (Cons c cs)
  show ?case
  proof
    assume "contains pat (c # cs)"
    then consider "prefix pat (c # cs)" | "contains pat cs" by auto
    then show "\<exists>a b. c # cs = a @ pat @ b"
    proof cases
      case 1
      then obtain b where "c # cs = pat @ b" by (auto simp: prefix_def)
      then have "c # cs = [] @ pat @ b" by simp
      then show ?thesis by blast
    next
      case 2
      then obtain a b where "cs = a @ pat @ b" using Cons.IH by blast
      then have "c # cs = (c # a) @ pat @ b" by simp
      then show ?thesis by blast
    qed
  next
    assume "\<exists>a b. c # cs = a @ pat @ b"
    then obtain a b where ab: "c # cs = a @ pat @ b" by blast
    show "contains pat (c # cs)"
    proof (cases a)
      case Nil
      then have "prefix pat (c # cs)" using ab by (simp add: prefix_def)
      then show ?thesis by simp
    next
      case (Cons x a')
      then have "cs = a' @ pat @ b" using ab by simp
      then show ?thesis using Cons.IH by auto
    qed
  qed
qed

lemma replace_Nil [simp]: "old \<noteq> [] \<Longrightarrow> replace old new [] = []"
  by (subst replace.simps) simp

lemma replace_match: "old \<noteq> [] \<Longrightarrow> replace old new (old @ b) = new @ replace old new b"
  by (subst replace.simps) simp

lemma replace_no_match:
  "old \<noteq> [] \<Longrightarrow> \<not> prefix old (c # cs) \<Longrightarrow> replace old new (c # cs) = c # replace old new cs"
  by (subst replace.simps) simp

lemma replace_absent:
  assumes "old \<noteq> []"
  shows "\<not> contains old s \<Longrightarrow> replace old new s = s"
proof (induction s)
  case Nil
  then show ?case using assms by simp
next
  case (Cons c cs)
  then show ?case using assms by (simp add: replace_no_match)
qed

text \<open>A pattern whose first character does not occur again in it cannot overlap itself.\<close>

lemma prefix_straddle:
  assumes "c \<notin> set r" "prefix (c # r) (a @ (c # r) @ b)" "a \<noteq> []"
  shows "prefix (c # r) a"
proof (rule ccontr)
  assume n: "\<not> prefix (c # r) a"
  from assms(2) have "prefix (c # r) a \<or> prefix a (c # r)"
    by (meson prefix_append prefix_same_cases prefix_order.order_refl)
  then have "prefix a (c # r)" using n by simp
  then obtain t where t: "c # r = a @ t" by (auto simp: prefix_def)
  have "t \<noteq> []" using t n by auto
  from assms(2) t have "prefix (a @ t) (a @ (c # r) @ b)" by simp
  then have "prefix t ((c # r) @ b)" by simp
  then have "hd t = c" using \<open>t \<noteq> []\<close> by (cases t) auto
  then have "c \<in> set t" using \<open>t \<noteq> []\<close> by (cases t) auto
  moreover obtain x a' where "a = x # a'" using assms(3) by (cases a) auto
  then have "r = a' @ t" using t by simp
  ultimately show False using assms(1) by simp
qed

lemma replace_occurrence:
  assumes "c \<notin> set r"
  shows "replace (c # r) new (a @ (c # r) @ b) = replace (c # r) new a @ new @ replace (c # r) new b"
proof (induction a rule: length_induct)
  case (1 a)
  let ?old = "c # r"
  show ?case
  proof (cases a)
    case Nil
    then show ?thesis using replace_match [of ?old new b] by simp
  next
    case (Cons x a')
    show ?thesis
    proof (cases "prefix ?old (a @ ?old @ b)")
      case True
      moreover have "a \<noteq> []" using Cons by simp
      ultimately have "prefix ?old a" by (rule prefix_straddle [OF assms])
      then obtain a'' where a'': "a = ?old @ a''" by (auto simp: prefix_def)
      then have "length a'' < length a" by simp
      with 1 have "replace ?old new (a'' @ ?old @ b) = replace ?old new a'' @ new @ replace ?old new b"
        by blast
      then show ?thesis
        using replace_match [of ?old new "a'' @ ?old @ b"] replace_match [of ?old new a'']
        by (simp add: a'')
    next
      case False
      then have na: "\<not> prefix ?old a" using prefix_prefix by blast
      have "length a' < length a" by (simp add: Cons)
      with 1 have "replace ?old new (a' @ ?old @ b) = replace ?old new a' @ new @ replace ?old new b"
        by blast
      then show ?thesis
        using False na replace_no_match [of ?old x "a' @ ?old @ b" new] replace_no_match [of ?old x a' new]
        by (simp add: Cons)
    qed
  qed
qed

lemma replace_other_char:
  assumes "x \<notin> set old" "old \<noteq> []"
  shows "replace old new (a @ x # b) = replace old new a @ x # replace old new b"
proof (induction a rule: length_induct)
  case (1 a)
  have nx: "\<not> prefix old (x # b)"
    using assms by (cases old) auto
  show ?case
  proof (cases a)
    case Nil
    then show ?thesis using nx assms(2) by (simp add: replace_no_match)
  next
    case (Cons y a')
    show ?thesis
    proof (cases "prefix old (a @ x # b)")
      case True
      have "prefix old a"
      proof (rule ccontr)
        assume n: "\<not> prefix old a"
        from True have "prefix old a \<or> prefix a old"
          by (meson prefix_append prefix_same_cases prefix_order.order_refl)
        then obtain t where t: "old = a @ t" using n by (auto simp: prefix_def)
        have "t \<noteq> []" using t n by auto
        from True t have "prefix t (x # b)" by simp
        then have "x \<in> set t" using \<open>t \<noteq> []\<close> by (cases t) auto
        then show False using assms(1) t by simp
      qed
      then obtain a'' where a'': "a = old @ a''" by (auto simp: prefix_def)
      then have "length a'' < length a" using assms(2) by simp
      with 1 have "replace old new (a'' @ x # b) = replace old new a'' @ x # replace old new b"
        by blast
      then show ?thesis
        using replace_match [OF assms(2), of new "a'' @ x # b"] replace_match [OF assms(2), of new a'']
        by (simp add: a'')
    next
      case False
      then have na: "\<not> prefix old a" using prefix_prefix by blast
      have "length a' < length a" by (simp add: Cons)
      with 1 have "replace old new (a' @ x # b) = replace old new a' @ x # replace old new b"
        by blast
      then show ?thesis
        using False na replace_no_match [OF assms(2), of y "a' @ x # b" new]
          replace_no_match [OF assms(2), of y a' new]
        by (simp add: Cons)
    qed
  qed
qed

lemmas eval_xml = xml_elements_def xml_step_def xml_close_def xml_chardata_def is_name_char_def
  is_name_start_def is_xml_space_def is_xml_char_def entity_char_def Let_def

lemma replace_skip:
  assumes "old \<noteq> []" "hd old \<notin> set x"
  shows "replace old new (x @ r) = x @ replace old new r"
  using assms(2)
proof (induction x)
  case Nil
  then show ?case by simp
next
  case (Cons c x)
  have "\<not> prefix old (c # x @ r)"
  proof
    assume "prefix old (c # x @ r)"
    then have "hd old = c" using assms(1) by (cases old) auto
    then show False using Cons.prems by simp
  qed
  then have "replace old new (c # x @ r) = c # replace old new (x @ r)"
    using replace_no_match [OF assms(1)] by blast
  then show ?case using Cons by simp
qed

lemma rewrite_reference:
  "replace ''&input'' ''&amp;input'' (''&amp;'' @ r) = ''&amp;'' @ replace ''&input'' ''&amp;input'' r"
  "replace ''&input'' ''&amp;input'' (''&lt;'' @ r) = ''&lt;'' @ replace ''&input'' ''&amp;input'' r"
  "replace ''&input'' ''&amp;input'' (''&gt;'' @ r) = ''&gt;'' @ replace ''&input'' ''&amp;input'' r"
  using replace_no_match [of "''&input''" "CHR ''&''" "''amp;'' @ r" "''&amp;input''"]
    replace_skip [of "''&input''" "''amp;''" "''&amp;input''" r]
    replace_no_match [of "''&input''" "CHR ''&''" "''lt;'' @ r" "''&amp;input''"]
    replace_skip [of "''&input''" "''lt;''" "''&amp;input''" r]
    replace_no_match [of "''&input''" "CHR ''&''" "''gt;'' @ r" "''&amp;input''"]
    replace_skip [of "''&input''" "''gt;''" "''&amp;input''" r]
  by simp_all

lemma rewrite_escaped_text:
  "replace ''&input'' ''&amp;input'' (xml_escape_but_input t @ w) =
     xml_escape t @ replace ''&input'' ''&amp;input'' w"
proof (induction t rule: length_induct)
  case (1 t)
  let ?R = "replace ''&input'' ''&amp;input''"
  show ?case
  proof (cases t)
    case Nil
    then show ?thesis by (simp add: xml_escape_def)
  next
    case (Cons c cs)
    have ih: "?R (xml_escape_but_input u @ w) = xml_escape u @ ?R w" if "length u \<le> length cs" for u
      using 1 that Cons by simp
    show ?thesis
    proof (cases "c = CHR ''&'' \<and> prefix ''input'' cs")
      case True
      then obtain u where u: "cs = ''input'' @ u" by (auto simp: prefix_def)
      have "xml_escape_but_input t = ''&input'' @ xml_escape_but_input u"
        using True Cons u by (simp add: escape_char_def)
      then have "?R (xml_escape_but_input t @ w) = ''&amp;input'' @ ?R (xml_escape_but_input u @ w)"
        using replace_match [of "''&input''" "''&amp;input''" "xml_escape_but_input u @ w"] by simp
      also have "\<dots> = ''&amp;input'' @ xml_escape u @ ?R w" using ih [of u] u by simp
      also have "\<dots> = xml_escape t @ ?R w"
        using True Cons u by (simp add: xml_escape_def escape_char_def)
      finally show ?thesis .
    next
      case False
      have e: "xml_escape_but_input t = escape_char c @ xml_escape_but_input cs"
        using False Cons by auto
      have "?R (escape_char c @ r) = escape_char c @ ?R r" for r
      proof (cases "c = CHR ''&'' \<or> c = CHR ''<'' \<or> c = CHR ''>''")
        case True
        then show ?thesis using rewrite_reference [of r] by (auto simp: escape_char_def)
      next
        case False
        then show ?thesis using replace_skip [of "''&input''" "[c]" "''&amp;input''" r]
          by (auto simp: escape_char_def)
      qed
      then have "?R (xml_escape_but_input t @ w) = escape_char c @ ?R (xml_escape_but_input cs @ w)"
        unfolding e by simp
      also have "\<dots> = escape_char c @ xml_escape cs @ ?R w" using ih [of cs] by simp
      finally show ?thesis using Cons by (simp add: xml_escape_def)
    qed
  qed
qed

lemma name_no_ampersand: "is_name_char c \<Longrightarrow> c \<noteq> CHR ''&''"
  by (auto simp: is_name_char_def is_name_start_def)

lemma rewrite_document:
  "wf_elem e \<Longrightarrow> replace ''&input'' ''&amp;input'' (xml_document xml_escape_but_input e @ w) =
     xml_document xml_escape e @ replace ''&input'' ''&amp;input'' w"
proof (induction e arbitrary: w)
  case (Elem tag attrs tx cs)
  let ?R = "replace ''&input'' ''&amp;input''"
  have tag: "CHR ''&'' \<notin> set tag" using Elem.prems name_no_ampersand by auto
  have kids: "?R (concat (map (xml_document xml_escape_but_input) ds) @ r) =
      concat (map (xml_document xml_escape) ds) @ ?R r" if "set ds \<subseteq> set cs" for ds r
    using that
  proof (induction ds)
    case Nil
    then show ?case by simp
  next
    case (Cons d ds)
    then have "d \<in> set cs" "wf_elem d" using Elem.prems by auto
    then have "?R (xml_document xml_escape_but_input d @ v) = xml_document xml_escape d @ ?R v" for v
      using Elem.IH by blast
    then show ?case using Cons by simp
  qed
  have tx: "?R ((case tx of None \<Rightarrow> [] | Some t \<Rightarrow> xml_escape_but_input t) @ r) =
      (case tx of None \<Rightarrow> [] | Some t \<Rightarrow> xml_escape t) @ ?R r" for r
    using rewrite_escaped_text by (cases tx) simp_all
  have "?R (xml_document xml_escape_but_input (Elem tag attrs tx cs) @ w) =
      ?R ((''<'' @ tag @ ''>'') @ (case tx of None \<Rightarrow> [] | Some t \<Rightarrow> xml_escape_but_input t) @
          concat (map (xml_document xml_escape_but_input) cs) @ (''</'' @ tag @ ''>'') @ w)"
    by simp
  also have "\<dots> = (''<'' @ tag @ ''>'') @ ?R ((case tx of None \<Rightarrow> [] | Some t \<Rightarrow> xml_escape_but_input t) @
          concat (map (xml_document xml_escape_but_input) cs) @ (''</'' @ tag @ ''>'') @ w)"
    by (rule replace_skip) (use tag in simp_all)
  also have "\<dots> = (''<'' @ tag @ ''>'') @ (case tx of None \<Rightarrow> [] | Some t \<Rightarrow> xml_escape t) @
          concat (map (xml_document xml_escape) cs) @ ?R ((''</'' @ tag @ ''>'') @ w)"
    unfolding tx kids [OF subset_refl] ..
  also have "?R ((''</'' @ tag @ ''>'') @ w) = (''</'' @ tag @ ''>'') @ ?R w"
    by (rule replace_skip) (use tag in simp_all)
  finally show ?case by simp
qed

lemma rewrite_input_document:
  "wf_elem e \<Longrightarrow> replace ''&input'' ''&amp;input'' (xml_document xml_escape_but_input e) =
     xml_document xml_escape e"
  using rewrite_document [of e "[]"] by simp

lemma name_char_not_gt: "is_name_char c \<Longrightarrow> c \<noteq> CHR ''>''"
  by (auto simp: is_name_char_def is_name_start_def)

lemma xml_run_open_name:
  "mode st = OpenTag n \<Longrightarrow> \<forall>c \<in> set s. is_name_char c \<Longrightarrow>
     xml_run st (s @ r) = xml_run (st\<lparr>mode := OpenTag (n @ s)\<rparr>) r"
proof (induction s arbitrary: st n)
  case Nil
  then show ?case by (cases st) simp
next
  case (Cons c s)
  have "xml_step st c = Some (st\<lparr>mode := OpenTag (n @ [c])\<rparr>)"
    using Cons.prems name_char_not_gt [of c] by (simp add: xml_step_def)
  then have "xml_run st ((c # s) @ r) = xml_run (st\<lparr>mode := OpenTag (n @ [c])\<rparr>) (s @ r)" by simp
  also have "\<dots> = xml_run (st\<lparr>mode := OpenTag (n @ [c])\<rparr>\<lparr>mode := OpenTag ((n @ [c]) @ s)\<rparr>) r"
    by (rule Cons.IH) (use Cons.prems in simp_all)
  finally show ?case by simp
qed

lemma xml_run_close_name:
  "mode st = CloseTag n \<Longrightarrow> \<forall>c \<in> set s. is_name_char c \<Longrightarrow>
     xml_run st (s @ r) = xml_run (st\<lparr>mode := CloseTag (n @ s)\<rparr>) r"
proof (induction s arbitrary: st n)
  case Nil
  then show ?case by (cases st) simp
next
  case (Cons c s)
  have "xml_step st c = Some (st\<lparr>mode := CloseTag (n @ [c])\<rparr>)"
    using Cons.prems name_char_not_gt [of c] by (simp add: xml_step_def)
  then have "xml_run st ((c # s) @ r) = xml_run (st\<lparr>mode := CloseTag (n @ [c])\<rparr>) (s @ r)" by simp
  also have "\<dots> = xml_run (st\<lparr>mode := CloseTag (n @ [c])\<rparr>\<lparr>mode := CloseTag ((n @ [c]) @ s)\<rparr>) r"
    by (rule Cons.IH) (use Cons.prems in simp_all)
  finally show ?case by simp
qed

lemma xml_run_escaped_char:
  assumes "mode st = InText" "stack st = f # fs" "fchildren f = []" "is_xml_char c"
  shows "xml_run st (escape_char c @ r) = xml_run (st\<lparr>stack := f\<lparr>ftext := ftext f @ [c]\<rparr> # fs\<rparr>) r"
proof -
  have x: "is_xml_char CHR ''&''" "is_xml_char CHR ''<''" "is_xml_char CHR ''>''"
    by (simp_all add: is_xml_char_def)
  consider "c = CHR ''&''" | "c = CHR ''<''" | "c = CHR ''>''"
    | "c \<noteq> CHR ''&''" "c \<noteq> CHR ''<''" "c \<noteq> CHR ''>''" by blast
  then show ?thesis
  proof cases
    case 1
    then show ?thesis using assms x
      by (cases st) (simp add: escape_char_def xml_step_def xml_chardata_def entity_char_def is_name_char_def
          is_name_start_def)
  next
    case 2
    then show ?thesis using assms x
      by (cases st) (simp add: escape_char_def xml_step_def xml_chardata_def entity_char_def is_name_char_def
          is_name_start_def)
  next
    case 3
    then show ?thesis using assms x
      by (cases st) (simp add: escape_char_def xml_step_def xml_chardata_def entity_char_def is_name_char_def
          is_name_start_def)
  next
    case 4
    then show ?thesis using assms
      by (cases st) (simp add: escape_char_def xml_step_def xml_chardata_def)
  qed
qed

lemma xml_run_escaped_text:
  "mode st = InText \<Longrightarrow> stack st = f # fs \<Longrightarrow> fchildren f = [] \<Longrightarrow> \<forall>c \<in> set t. is_xml_char c \<Longrightarrow>
     xml_run st (xml_escape t @ r) = xml_run (st\<lparr>stack := f\<lparr>ftext := ftext f @ t\<rparr> # fs\<rparr>) r"
proof (induction t arbitrary: st f)
  case Nil
  then show ?case by (cases st) (simp add: xml_escape_def)
next
  case (Cons c t)
  let ?st = "st\<lparr>stack := f\<lparr>ftext := ftext f @ [c]\<rparr> # fs\<rparr>"
  have "xml_run st (xml_escape (c # t) @ r) = xml_run st (escape_char c @ xml_escape t @ r)"
    by (simp add: xml_escape_def)
  also have "\<dots> = xml_run ?st (xml_escape t @ r)"
    by (rule xml_run_escaped_char) (use Cons.prems in simp_all)
  also have "\<dots> = xml_run (?st\<lparr>stack := (f\<lparr>ftext := ftext f @ [c]\<rparr>)\<lparr>ftext := ftext (f\<lparr>ftext := ftext f @ [c]\<rparr>) @ t\<rparr> # fs\<rparr>) r"
    by (rule Cons.IH) (use Cons.prems in simp_all)
  finally show ?case by simp
qed

lemma xml_run_element:
  "wf_elem e \<Longrightarrow> mode st = InText \<Longrightarrow> stack st \<noteq> [] \<or> root st = None \<Longrightarrow>
     xml_run st (xml_document xml_escape e @ r) = xml_run (add_child e st) r"
proof (induction e arbitrary: st r)
  case (Elem tag attrs tx cs)
  obtain a tag' where tag: "tag = a # tag'" "is_name_start a" "\<forall>c \<in> set tag'. is_name_char c"
    using Elem.prems(1) by (cases tag) auto
  have names: "\<forall>c \<in> set tag. is_name_char c" using Elem.prems(1) by simp
  have attrs: "attrs = []" using Elem.prems(1) by simp
  let ?f = "\<lparr>ftag = tag, ftext = [], fchildren = []\<rparr>"
  let ?t = "case tx of None \<Rightarrow> [] | Some t \<Rightarrow> t"
  let ?body = "(case tx of None \<Rightarrow> [] | Some t \<Rightarrow> xml_escape t) @
     concat (map (xml_document xml_escape) cs) @ ''</'' @ tag @ ''>'' @ r"
  have kids: "xml_run s (concat (map (xml_document xml_escape) ds) @ v) =
      xml_run (s\<lparr>stack := f\<lparr>fchildren := fchildren f @ ds\<rparr> # fs\<rparr>) v"
    if "set ds \<subseteq> set cs" "mode s = InText" "stack s = f # fs" for ds s f fs v
    using that
  proof (induction ds arbitrary: s f)
    case Nil
    then show ?case by (cases s) simp
  next
    case (Cons d ds)
    let ?s = "s\<lparr>stack := f\<lparr>fchildren := fchildren f @ [d]\<rparr> # fs\<rparr>"
    have d: "d \<in> set cs" "wf_elem d" using Cons.prems(1) Elem.prems(1) by auto
    have "xml_run s (xml_document xml_escape d @ concat (map (xml_document xml_escape) ds) @ v) =
        xml_run (add_child d s) (concat (map (xml_document xml_escape) ds) @ v)"
      by (rule Elem.IH) (use d Cons.prems in simp_all)
    also have "add_child d s = ?s" using Cons.prems(3) by (simp add: add_child_def)
    also have "xml_run ?s (concat (map (xml_document xml_escape) ds) @ v) =
        xml_run (?s\<lparr>stack := (f\<lparr>fchildren := fchildren f @ [d]\<rparr>)
           \<lparr>fchildren := fchildren (f\<lparr>fchildren := fchildren f @ [d]\<rparr>) @ ds\<rparr> # fs\<rparr>) v"
      by (rule Cons.IH) (use Cons.prems in simp_all)
    finally show ?case by simp
  qed
  let ?s1 = "st\<lparr>mode := OpenTag [a]\<rparr>"
  let ?s2 = "st\<lparr>mode := InText, stack := ?f # stack st\<rparr>"
  let ?s3 = "?s2\<lparr>stack := ?f\<lparr>ftext := ?t\<rparr> # stack st\<rparr>"
  let ?s4 = "?s3\<lparr>stack := ?f\<lparr>ftext := ?t, fchildren := cs\<rparr> # stack st\<rparr>"
  have "xml_run st (xml_document xml_escape (Elem tag attrs tx cs) @ r) =
      xml_run st (CHR ''<'' # a # tag' @ CHR ''>'' # ?body)"
    by (simp add: tag(1))
  also have "\<dots> = xml_run ?s1 (tag' @ CHR ''>'' # ?body)"
    using Elem.prems(2,3) tag(2) name_char_not_gt [of a] 
    by (cases st) (auto simp: xml_step_def is_name_char_def is_name_start_def)
  also have "\<dots> = xml_run (?s1\<lparr>mode := OpenTag ([a] @ tag')\<rparr>) (CHR ''>'' # ?body)"
    by (rule xml_run_open_name) (use tag(3) in simp_all)
  also have "\<dots> = xml_run ?s2 ?body"
    by (simp add: xml_step_def tag(1))
  also have "\<dots> = xml_run ?s3 (concat (map (xml_document xml_escape) cs) @ ''</'' @ tag @ ''>'' @ r)"
  proof (cases tx)
    case None
    then show ?thesis by simp
  next
    case (Some t)
    have "xml_run ?s2 (xml_escape t @ concat (map (xml_document xml_escape) cs) @ ''</'' @ tag @ ''>'' @ r) =
        xml_run (?s2\<lparr>stack := ?f\<lparr>ftext := ftext ?f @ t\<rparr> # stack st\<rparr>)
          (concat (map (xml_document xml_escape) cs) @ ''</'' @ tag @ ''>'' @ r)"
      by (rule xml_run_escaped_text) (use Elem.prems(1) Some in simp_all)
    then show ?thesis using Some by simp
  qed
  also have "\<dots> = xml_run (?s3\<lparr>stack := (?f\<lparr>ftext := ?t\<rparr>)\<lparr>fchildren := fchildren (?f\<lparr>ftext := ?t\<rparr>) @ cs\<rparr> # stack st\<rparr>)
      (''</'' @ tag @ ''>'' @ r)"
    by (rule kids) simp_all
  also have "\<dots> = xml_run (?s4\<lparr>mode := CloseTag []\<rparr>) (tag @ CHR ''>'' # r)"
    by (simp add: xml_step_def)
  also have "\<dots> = xml_run (?s4\<lparr>mode := CloseTag []\<rparr>\<lparr>mode := CloseTag ([] @ tag)\<rparr>) (CHR ''>'' # r)"
    by (rule xml_run_close_name) (use names in simp_all)
  also have "\<dots> = xml_run (add_child (Elem tag attrs tx cs) st) r"
    using Elem.prems(1,2) attrs
    by (cases st; cases "stack st"; cases tx)
      (simp_all add: xml_step_def xml_close_def add_child_def Let_def)
  finally show ?case .
qed

lemma xml_elements_document:
  assumes "wf_elem e"
  shows "xml_elements (file_lines (xml_document xml_escape e)) = Some e"
proof -
  let ?init = "\<lparr>mode = InText, stack = [], root = None\<rparr>"
  have "xml_run ?init (xml_document xml_escape e @ []) = xml_run (add_child e ?init) []"
    by (rule xml_run_element) (use assms in simp_all)
  then show ?thesis by (simp add: xml_elements_def concat_file_lines add_child_def)
qed

lemma benign_Inr [simp]: "benign (Inr v)"
  by (simp add: benign_def)

lemma benign_AttributeError [simp]: "benign (Inl AttributeError)"
  by (simp add: benign_def)

lemma benign_ebind: "benign m \<Longrightarrow> (\<And>v. benign (f v)) \<Longrightarrow> benign (ebind m f)"
  by (cases m) (simp_all add: benign_def ebind_def)

lemma benign_floats: "benign (floats pyfloat ts)"
  by (induction ts) (auto simp: benign_def ebind_def split: option.splits sum.splits)

lemma benign_float_array: "benign (float_array pyfloat node)"
  unfolding float_array_def
  by (auto split: option.splits intro!: benign_ebind benign_floats)

lemma benign_augmentation_loop: "benign (augmentation_loop pyfloat st qs)"
proof (induction qs arbitrary: st)
  case Nil
  then show ?case by simp
next
  case (Cons q qs)
  obtain a b c where st: "st = (a, b, c)" by (cases st)
  show ?case
    unfolding st augmentation_loop.simps prod.case
    by (intro benign_ebind benign_float_array Cons.IH | simp only: if_split [of benign] | rule conjI impI)+
qed

lemma benign_nonlocal_loop: "benign (nonlocal_loop pyfloat st els)"
proof (induction els arbitrary: st)
  case Nil
  then show ?case by simp
next
  case (Cons el els)
  obtain a b c d where st: "st = (a, b, c, d)" by (cases st)
  have aug: "benign (case r of (pp_qijl, pp_qij, pp_q') \<Rightarrow> nonlocal_loop pyfloat (g pp_qijl pp_qij pp_q') els)"
    for r :: "'a pyval list \<times> 'a pyval list \<times> 'a pyval" and g
    by (cases r) (simp add: Cons.IH)
  show ?case
    unfolding st nonlocal_loop.simps prod.case
    by (intro benign_ebind benign_float_array benign_augmentation_loop Cons.IH aug
        | simp only: if_split [of benign] | rule conjI impI)+
qed

lemma benign_extract_pseudo: "benign (extract_pseudo pyfloat psroot)"
proof -
  have nt: "benign (node_text n :: error + 'a pyval)" for n
    by (cases n) (simp_all add: node_text_def)
  have opt: "benign (case find_child t psroot of None \<Rightarrow> Inr PNone
      | Some node \<Rightarrow> float_array pyfloat (Some node))" for t
    by (cases "find_child t psroot") (simp_all add: benign_float_array)
  have nl: "benign (case find_child t psroot of None \<Rightarrow> Inr PNone
      | Some node \<Rightarrow> ebind (nonlocal_loop pyfloat s0 (children node)) (\<lambda>r.
          case r of (betas, dij, pp_aug, pp_q) \<Rightarrow> Inr (g betas dij pp_aug)))" for t s0 g
    by (cases "find_child t psroot")
       (auto intro!: benign_ebind benign_nonlocal_loop split: prod.splits)
  show ?thesis
    unfolding extract_pseudo_def Let_def
    by (cases "find_child ''PP_HEADER'' psroot"; cases "find_child ''PP_MESH'' psroot")
       (auto intro!: benign_ebind nt opt nl benign_float_array)
qed

lemma extract_pseudo_no_info:
  "find_child ''PP_INFO'' psroot = None \<Longrightarrow> extract_pseudo pyfloat psroot = Inl AttributeError"
  by (simp add: extract_pseudo_def node_text_def ebind_def)

lemma extract_pseudo_no_header:
  "find_child ''PP_HEADER'' psroot = None \<Longrightarrow> extract_pseudo pyfloat psroot = Inl AttributeError"
  by (cases "find_child ''PP_INFO'' psroot")
     (simp_all add: extract_pseudo_def node_text_def ebind_def Let_def)

lemma replace_lines:
  assumes "CHR 0x0A \<notin> set old" "old \<noteq> []"
  shows "concat (map (replace old new) (file_lines s)) = replace old new s"
proof (induction s rule: length_induct)
  case (1 s)
  show ?case
  proof (cases "CHR 0x0A \<in> set s")
    case False
    then have "file_lines s = (if s = [] then [] else [s])"
      using file_lines_append [of s "[]"] by simp
    then show ?thesis using assms(2) by simp
  next
    case True
    then obtain l r where s: "s = l @ CHR 0x0A # r" "CHR 0x0A \<notin> set l"
      by (meson split_list_first)
    have "length r < length s" by (simp add: s(1))
    with 1 have ih: "concat (map (replace old new) (file_lines r)) = replace old new r" by blast
    have "file_lines s = (l @ [CHR 0x0A]) # file_lines r"
      unfolding s(1) using s(2) by (rule file_lines_line)
    moreover have "replace old new (l @ [CHR 0x0A]) = replace old new l @ [CHR 0x0A]"
      using replace_other_char [OF assms, of new l "[]"] assms(2) by simp
    moreover have "replace old new s = replace old new l @ CHR 0x0A # replace old new r"
      unfolding s(1) using assms by (rule replace_other_char)
    ultimately show ?thesis using ih by simp
  qed
qed

lemma prefix_replace_clean:
  assumes "new \<noteq> []" "hd new = c"
  shows "prefix r (replace (c # w) new s) \<Longrightarrow> c \<notin> set r \<Longrightarrow> prefix r s"
proof (induction s arbitrary: r rule: length_induct)
  case (1 s)
  have old: "c # w \<noteq> []" by simp
  show ?case
  proof (cases r)
    case Nil
    then show ?thesis by simp
  next
    case (Cons y r')
    show ?thesis
    proof (cases s)
      case Nil
      then show ?thesis using "1.prems"(1) by (simp add: Cons)
    next
      case s: (Cons x s')
      show ?thesis
      proof (cases "prefix (c # w) s")
        case True
        then obtain t where "s = (c # w) @ t" by (auto simp: prefix_def)
        then have "replace (c # w) new s = new @ replace (c # w) new t"
          using replace_match [OF old, of new t] by simp
        then have "hd (replace (c # w) new s) = c" using assms by simp
        moreover have "replace (c # w) new s \<noteq> []"
          using \<open>replace (c # w) new s = new @ replace (c # w) new t\<close> assms(1) by simp
        ultimately have "y = c" using "1.prems"(1) by (cases "replace (c # w) new s") (auto simp: Cons)
        then show ?thesis using "1.prems"(2) by (simp add: Cons)
      next
        case False
        then have "replace (c # w) new s = x # replace (c # w) new s'"
          unfolding s by (rule replace_no_match [OF old])
        then have "y = x" "prefix r' (replace (c # w) new s')"
          using "1.prems"(1) by (simp_all add: Cons)
        moreover have "c \<notin> set r'" using "1.prems"(2) by (simp add: Cons)
        moreover have "length s' < length s" by (simp add: s)
        ultimately have "prefix r' s'" using "1.IH" by blast
        then show ?thesis using \<open>y = x\<close> by (simp add: Cons s)
      qed
    qed
  qed
qed

lemma contains_append_clean:
  assumes "c \<notin> set a"
  shows "contains (c # w) (a @ b) = contains (c # w) b"
  using assms by (induction a) auto

lemma replace_removes:
  assumes "c \<notin> set w" "c \<notin> set n" "w \<noteq> []" "n \<noteq> []" "hd w \<noteq> hd n"
  shows "\<not> contains (c # w) (replace (c # w) (c # n) s)"
proof (induction s rule: length_induct)
  case (1 s)
  have old: "c # w \<noteq> []" by simp
  show ?case
  proof (cases s)
    case Nil
    then show ?thesis by simp
  next
    case s: (Cons x s')
    show ?thesis
    proof (cases "prefix (c # w) s")
      case True
      then obtain t where t: "s = (c # w) @ t" by (auto simp: prefix_def)
      then have r: "replace (c # w) (c # n) s = c # n @ replace (c # w) (c # n) t"
        using replace_match [OF old, of "c # n" t] by simp
      have "length t < length s" by (simp add: t)
      with 1 have ih: "\<not> contains (c # w) (replace (c # w) (c # n) t)" by blast
      have "\<not> prefix w (n @ replace (c # w) (c # n) t)"
        using assms(3,4,5) by (cases w; cases n) auto
      then show ?thesis
        unfolding r using ih contains_append_clean [OF assms(2)] by simp
    next
      case False
      then have r: "replace (c # w) (c # n) s = x # replace (c # w) (c # n) s'"
        unfolding s by (rule replace_no_match [OF old])
      have "length s' < length s" by (simp add: s)
      with 1 have ih: "\<not> contains (c # w) (replace (c # w) (c # n) s')" by blast
      have "\<not> prefix (c # w) (x # replace (c # w) (c # n) s')"
      proof
        assume p: "prefix (c # w) (x # replace (c # w) (c # n) s')"
        then have xc: "x = c" and pw: "prefix w (replace (c # w) (c # n) s')" by auto
        have "prefix w s'"
          using pw assms(1) by (rule prefix_replace_clean [where new = "c # n", rotated 2]) simp_all
        then show False using False xc by (simp add: s)
      qed
      then show ?thesis unfolding r using ih by simp
    qed
  qed
qed

lemma rewrite_input_removes: "\<not> contains ''&input'' (replace ''&input'' ''&amp;input'' s)"
  by (rule replace_removes) simp_all

lemma replace_set: "old \<noteq> [] \<Longrightarrow> set (replace old new s) \<subseteq> set s \<union> set new"
proof (induction s rule: length_induct)
  case (1 s)
  show ?case
  proof (cases s)
    case Nil
    then show ?thesis using 1(2) by simp
  next
    case (Cons c cs)
    show ?thesis
    proof (cases "prefix old s")
      case True
      then obtain b where b: "s = old @ b" by (auto simp: prefix_def)
      have "length b < length s" using b 1(2) by simp
      with 1 have "set (replace old new b) \<subseteq> set b \<union> set new" by blast
      then show ?thesis unfolding b using replace_match [OF 1(2), of new b] by auto
    next
      case False
      have "length cs < length s" using Cons by simp
      with 1 have "set (replace old new cs) \<subseteq> set cs \<union> set new" by blast
      then show ?thesis using replace_no_match [OF 1(2), of c cs new] False Cons by auto
    qed
  qed
qed

lemma replace_not_Nil:
  assumes "old \<noteq> []" "new \<noteq> []" "s \<noteq> []"
  shows "replace old new s \<noteq> []"
proof (cases "prefix old s")
  case True
  then obtain b where "s = old @ b" by (auto simp: prefix_def)
  then show ?thesis using replace_match [OF assms(1), of new b] assms(2) by simp
next
  case False
  obtain c cs where "s = c # cs" using assms(3) by (cases s) auto
  then show ?thesis using replace_no_match [OF assms(1), of c cs new] False by simp
qed

lemma file_lines_replace:
  assumes "CHR 0x0A \<notin> set old" "CHR 0x0A \<notin> set new" "old \<noteq> []" "new \<noteq> []"
  shows "file_lines (replace old new s) = map (replace old new) (file_lines s)"
proof (induction s rule: length_induct)
  case (1 s)
  have clean: "CHR 0x0A \<notin> set (replace old new l)" if "CHR 0x0A \<notin> set l" for l
    using replace_set [OF assms(3), of new l] that assms(2) by auto
  show ?case
  proof (cases "CHR 0x0A \<in> set s")
    case False
    have a: "file_lines s = (if s = [] then [] else [s])"
      using file_lines_append [of s "[]"] False by simp
    have b: "file_lines (replace old new s) =
        (if replace old new s = [] then [] else [replace old new s])"
      using file_lines_append [of "replace old new s" "[]"] clean [OF False] by simp
    show ?thesis
    proof (cases "s = []")
      case True
      then show ?thesis using assms(3) by simp
    next
      case ne: False
      then show ?thesis using a b replace_not_Nil [OF assms(3,4) ne] by simp
    qed
  next
    case True
    then obtain l r where s: "s = l @ CHR 0x0A # r" "CHR 0x0A \<notin> set l"
      by (meson split_list_first)
    have "length r < length s" by (simp add: s(1))
    with 1 have ih: "file_lines (replace old new r) = map (replace old new) (file_lines r)" by blast
    have fl: "file_lines s = (l @ [CHR 0x0A]) # file_lines r"
      unfolding s(1) using s(2) by (rule file_lines_line)
    have r1: "replace old new (l @ [CHR 0x0A]) = replace old new l @ [CHR 0x0A]"
      using replace_other_char [OF assms(1,3), of new l "[]"] assms(3) by simp
    have r2: "replace old new s = replace old new l @ CHR 0x0A # replace old new r"
      unfolding s(1) using assms(1,3) by (rule replace_other_char)
    have "file_lines (replace old new s) = (replace old new l @ [CHR 0x0A]) # file_lines (replace old new r)"
      unfolding r2 using clean [OF s(2)] by (rule file_lines_line)
    then show ?thesis using fl r1 ih by simp
  qed
qed

lemma rewrite_input_lines:
  "map (replace ''&input'' ''&amp;input'') (file_lines content) =
     file_lines (replace ''&input'' ''&amp;input'' content)"
  by (rule file_lines_replace [symmetric]) simp_all

section \<open>Claims about the scatter step\<close>



text \<open>
  Claim C7. The scatter loop assigns, it does not accumulate. When every index fits the
  array and entry \<open>m\<close> is the last one whose index lands on its cell, the loop succeeds
  and that cell holds the coefficient of entry \<open>m\<close>; and replacing the coefficient of any
  earlier entry \<open>n\<close> that lands on the same cell by any other value \<open>c\<close> gives the very same
  array.
\<close>

theorem scatter_last_write_wins:
  assumes "wf_array a" and "\<forall>el \<in> set els. fits (shape a) (fst el)"
    and "m < length els"
    and "\<forall>k. m < k \<and> k < length els \<longrightarrow>
           wrap (shape a) (fst (els ! k)) \<noteq> wrap (shape a) (fst (els ! m))"
  shows "\<exists>a'. scatter_loop a els = Inr a' \<and>
           cell a' (wrap (shape a) (fst (els ! m))) = snd (els ! m) \<and>
           (\<forall>n c. n < m \<and> wrap (shape a) (fst (els ! n)) = wrap (shape a) (fst (els ! m)) \<longrightarrow>
              scatter_loop a (els[n := (fst (els ! n), c)]) = Inr a')"
proof -
  from scatter_loop_total [OF assms(1,2)] obtain a' where a': "scatter_loop a els = Inr a'" ..
  note A = scatter_loop_Inr [OF a' assms(1)]
  have fit: "fits (shape a) (fst (els ! m))" using assms(2,3) by simp
  have "in_shape (shape a) (wrap (shape a) (fst (els ! m)))"
    using fit by (rule fits_wrap_in_shape)
  from scatter_loop_cell [OF a' assms(1) this]
  have c: "cell a' (wrap (shape a) (fst (els ! m))) = snd (els ! m)"
    by (simp add: last_write_last [OF assms(3,4)])
  have "scatter_loop a (els[n := (fst (els ! n), c)]) = Inr a'"
    if "n < m" "wrap (shape a) (fst (els ! n)) = wrap (shape a) (fst (els ! m))" for n c
  proof -
    let ?els = "els[n := (fst (els ! n), c)]"
    have "fits (shape a) (fst el)" if el: "el \<in> set ?els" for el
    proof -
      from el set_update_subset_insert [of els n "(fst (els ! n), c)"]
      have "el = (fst (els ! n), c) \<or> el \<in> set els" by blast
      then show ?thesis
      proof
        assume "el = (fst (els ! n), c)"
        moreover have "els ! n \<in> set els" using \<open>n < m\<close> assms(3) by simp
        ultimately show ?thesis using assms(2) by simp
      next
        assume "el \<in> set els"
        then show ?thesis using assms(2) by simp
      qed
    qed
    then have "\<forall>el \<in> set ?els. fits (shape a) (fst el)" by blast
    from scatter_loop_total [OF assms(1) this] obtain b where b: "scatter_loop a ?els = Inr b" ..
    have "b = a'"
      using assms(1) a' b last_write_overwritten [OF that(1) assms(3) that(2)]
      by (rule scatter_loop_determined)
    then show ?thesis using b by simp
  qed
  with a' c show ?thesis by blast
qed

theorem scatter_last_write_wins_witness:
  "\<exists>a'. scatter_loop \<lparr>shape = (2, 1, 1), cells = [[[0]], [[0]]]\<rparr>
          [((1, 0, 0), 3), ((- 1, 0, 0), 4 :: complex)] = Inr a' \<and>
        cell a' (1, 0, 0) = 4 \<and>
        scatter_loop \<lparr>shape = (2, 1, 1), cells = [[[0]], [[0]]]\<rparr>
          [((1, 0, 0), 9), ((- 1, 0, 0), 4 :: complex)] = Inr a'"
proof -
  let ?A = "\<lparr>shape = (2, 1, 1), cells = [[[0]], [[0]]]\<rparr> :: complex ndarray"
  let ?els = "[((1, 0, 0), 3), ((- 1, 0, 0), 4)] :: ((int \<times> int \<times> int) \<times> complex) list"
  have 1: "wf_array ?A" by (simp add: wf_array_def)
  have 2: "\<forall>el \<in> set ?els. fits (shape ?A) (fst el)" by (simp add: fits_def)
  have 3: "(1::nat) < length ?els" by simp
  have 4: "\<forall>k. 1 < k \<and> k < length ?els \<longrightarrow>
      wrap (shape ?A) (fst (?els ! k)) \<noteq> wrap (shape ?A) (fst (?els ! 1))" by simp
  let ?P = "\<lambda>a'. scatter_loop ?A ?els = Inr a' \<and>
      cell a' (wrap (shape ?A) (fst (?els ! 1))) = snd (?els ! 1) \<and>
      (\<forall>n c. n < 1 \<and>
        wrap (shape ?A) (fst (?els ! n)) = wrap (shape ?A) (fst (?els ! 1)) \<longrightarrow>
        scatter_loop ?A (?els[n := (fst (?els ! n), c)]) = Inr a')"
  have "\<exists>a'. ?P a'" by (rule scatter_last_write_wins [OF 1 2 3 4])
  then obtain a' where X: "?P a'" ..
  note a' = X [THEN conjunct1] and c = X [THEN conjunct2, THEN conjunct1]
    and n = X [THEN conjunct2, THEN conjunct2]
  have "0 < (1::nat) \<and> wrap (shape ?A) (fst (?els ! 0)) = wrap (shape ?A) (fst (?els ! 1))"
    by (simp add: wrap_def)
  with n have "scatter_loop ?A (?els[0 := (fst (?els ! 0), 9)]) = Inr a'"
    by (elim allE [of _ 0] allE [of _ 9] impE) assumption+
  then have "scatter_loop ?A [((1, 0, 0), 9), ((- 1, 0, 0), 4 :: complex)] = Inr a'" by simp
  moreover have "cell a' (1, 0, 0) = 4" using c by (simp add: wrap_def)
  ultimately show ?thesis using a' by blast
qed

section \<open>Claims about the charge reconstruction\<close>

text \<open>
  Claim C1. Take positive dimensions \<open>(n1, n2, n3)\<close>, Miller indices \<open>idx\<close> that fit the
  grid (the precondition of the decoder) and as many coefficients \<open>coefs\<close>, read from the
  total-charge dataset. Then \<^verbatim>\<open>read_charge_file_hdf5\<close> returns, and its total field has
  the shape \<open>(n1, n2, n3)\<close> and is, cell by cell, the real part of the inverse
  three-dimensional discrete Fourier transform of the grid that is zero except where
  the coefficients were written at their indices, multiplied by \<open>n1 * n2 * n3\<close>. With no
  coefficient at all the field is zero everywhere.
\<close>

theorem charge_reconstruction:
  assumes "0 < n1" "0 < n2" "0 < n3"
    and "length idx = length coefs"
    and "\<forall>p \<in> set idx. fits (n1, n2, n3) p"
    and "MillerIndices h5f = Some idx"
    and "read_coefficients (ngm_g h5f) (rhotot_g h5f) = Inr coefs"
  shows "\<exists>tot diff. read_charge_file_hdf5 h5f (int n1, int n2, int n3) = Inr (tot, diff) \<and>
           wf_array tot \<and> shape tot = (n1, n2, n3) \<and>
           (\<forall>q. in_shape (n1, n2, n3) q \<longrightarrow> cell tot q = spec_field (n1, n2, n3) idx coefs q) \<and>
           (coefs = [] \<longrightarrow> (\<forall>q. in_shape (n1, n2, n3) q \<longrightarrow> cell tot q = 0))"
proof -
  let ?s = "(n1, n2, n3)" and ?nr = "(int n1, int n2, int n3)"
  from reconstruct_fits [OF assms(1-3,5)] obtain r where
    r: "reconstruct ?nr (Some idx) coefs = Inr r" "wf_array r" "shape r = ?s"
    and cr: "\<And>q. in_shape ?s q \<Longrightarrow>
        cell r q = spec_idft3 ?s (spec_scatter ?s idx coefs) q * of_nat (n1 * n2 * n3)"
    by blast
  define attempt where "attempt = ebind (read_coefficients (ngm_g h5f) (rhodiff_g h5f)) (reconstruct ?nr (Some idx))"
  obtain d where d: "(case attempt of Inr rhodiff_r \<Rightarrow> Inr rhodiff_r | Inl e \<Rightarrow> np_zeros ?nr) = Inr d"
    by (cases attempt) (simp_all add: np_zeros_nat)
  have run: "read_charge_file_hdf5 h5f ?nr = Inr (map_array Re r, map_array Re d)"
    using d by (simp add: read_charge_file_hdf5_def assms(6,7) ebind_def r(1) attempt_def)
  have c: "cell (map_array Re r) q = spec_field ?s idx coefs q" if "in_shape ?s q" for q
    using cell_map_array [OF r(2), of q Re] that r(3) cr [OF that] by (simp add: spec_field_def)
  have "wf_array (map_array Re r)" using r(2) by (rule wf_map_array)
  moreover have "shape (map_array Re r) = ?s" using r(3) by simp
  moreover have "cell (map_array Re r) q = 0" if "coefs = []" "in_shape ?s q" for q
    using c [OF that(2)] that(1) by (simp add: spec_field_Nil)
  ultimately show ?thesis using run c by blast
qed

theorem charge_reconstruction_witness:
  "\<exists>tot diff.
      read_charge_file_hdf5
        \<lparr>ngm_g = Some 1, MillerIndices = Some [(- 1, 0, 0)], rhotot_g = Some [2, 0],
         rhodiff_g = None\<rparr> (2, 1, 1) = Inr (tot, diff) \<and>
      shape tot = (2, 1, 1) \<and>
      cell tot (1, 0, 0) = spec_field (2, 1, 1) [(- 1, 0, 0)] [Complex 2 0] (1, 0, 0)"
proof -
  let ?H = "\<lparr>ngm_g = Some 1, MillerIndices = Some [(- 1, 0, 0)], rhotot_g = Some [2, 0],
             rhodiff_g = None\<rparr>"
  have 1: "\<forall>p \<in> set [(- 1, 0, 0)]. fits (2, 1, 1) p" by (simp add: fits_def)
  have 2: "length [(- 1 :: int, 0 :: int, 0 :: int)] = length [Complex 2 0]" by simp
  have 3: "read_coefficients (ngm_g ?H) (rhotot_g ?H) = Inr [Complex 2 0]"
    by (simp add: read_coefficients_def reshape_pairs_def ebind_def)
  have 4: "MillerIndices ?H = Some [(- 1, 0, 0)]" by simp
  have 5: "in_shape (2, 1, 1) (1, 0, 0)" by (simp add: in_shape_def)
  from charge_reconstruction [of 2 1 1, OF _ _ _ 2 1 4 3] 5 show ?thesis
    by simp blast
qed

text \<open>
  Claim C5. When the file holds no dataset \<^verbatim>\<open>rhodiff_g\<close> and its total charge decodes
  (positive dimensions, indices that fit), \<^verbatim>\<open>read_charge_file_hdf5\<close> does not fail: the
  difference field it returns has the shape of the total field and is zero in every
  cell.
\<close>

theorem missing_rhodiff_gives_zeros:
  assumes "0 < n1" "0 < n2" "0 < n3"
    and "\<forall>p \<in> set idx. fits (n1, n2, n3) p"
    and "MillerIndices h5f = Some idx"
    and "read_coefficients (ngm_g h5f) (rhotot_g h5f) = Inr coefs"
    and "rhodiff_g h5f = None"
  shows "\<exists>tot diff. read_charge_file_hdf5 h5f (int n1, int n2, int n3) = Inr (tot, diff) \<and>
           shape diff = shape tot \<and> shape tot = (n1, n2, n3) \<and>
           diff = \<lparr>shape = (n1, n2, n3), cells = replicate n1 (replicate n2 (replicate n3 0))\<rparr> \<and>
           (\<forall>q. in_shape (n1, n2, n3) q \<longrightarrow> cell diff q = 0)"
proof -
  let ?s = "(n1, n2, n3)" and ?nr = "(int n1, int n2, int n3)"
  let ?Z = "\<lparr>shape = ?s, cells = replicate n1 (replicate n2 (replicate n3 (0::real)))\<rparr>"
  from reconstruct_fits [OF assms(1-4)] obtain r where
    r: "reconstruct ?nr (Some idx) coefs = Inr r" "shape r = ?s"
    by blast
  have absent: "read_coefficients (ngm_g h5f) (rhodiff_g h5f) = Inl KeyError"
    by (simp add: assms(7) read_coefficients_def)
  have "read_charge_file_hdf5 h5f ?nr = Inr (map_array Re r, ?Z)"
    by (simp add: read_charge_file_hdf5_def assms(5,6) absent ebind_def r(1)
        np_zeros_nat map_array_Re_zeros)
  moreover have "cell ?Z q = 0" if "in_shape ?s q" for q using that by (rule cell_zeros)
  ultimately show ?thesis using r(2) by simp
qed

theorem missing_rhodiff_gives_zeros_witness:
  "\<exists>tot diff.
      read_charge_file_hdf5
        \<lparr>ngm_g = Some 1, MillerIndices = Some [(1, 0, 0)], rhotot_g = Some [3, 4],
         rhodiff_g = None\<rparr> (2, 1, 1) = Inr (tot, diff) \<and>
      shape tot = (2, 1, 1) \<and> diff = \<lparr>shape = (2, 1, 1), cells = [[[0]], [[0]]]\<rparr>"
proof -
  let ?H = "\<lparr>ngm_g = Some 1, MillerIndices = Some [(1, 0, 0)], rhotot_g = Some [3, 4],
             rhodiff_g = None\<rparr>"
  have 1: "\<forall>p \<in> set [(1, 0, 0)]. fits (2, 1, 1) p" by (simp add: fits_def)
  have 2: "read_coefficients (ngm_g ?H) (rhotot_g ?H) = Inr [Complex 3 4]"
    by (simp add: read_coefficients_def reshape_pairs_def ebind_def)
  have 3: "MillerIndices ?H = Some [(1, 0, 0)]" by simp
  have 4: "rhodiff_g ?H = None" by simp
  have 5: "replicate 2 (replicate 1 (replicate 1 (0::real))) = [[[0]], [[0]]]"
    by (simp add: numeral_2_eq_2)
  from missing_rhodiff_gives_zeros [of 2 1 1, OF _ _ _ 1 3 2 4] show ?thesis
    unfolding 5 by simp blast
qed

section \<open>Claims about the text codec\<close>

text \<open>
  Claim C3, as the code has it. \<^verbatim>\<open>write_charge\<close> writes the header and then the values
  \<open>field_values charge\<close>: there are \<open>n1 * n2 * n3\<close> of them and the value of cell
  \<open>(x, y, z)\<close> is number \<open>x + n1 * (y + n2 * z)\<close>, so the first axis varies fastest and the
  third slowest. They are written in groups of five (\<open>groups5\<close>: group \<open>i\<close> holds the
  values \<open>5 i, \<dots>, 5 i + 4\<close> that exist), each value as two blanks and its text
  \<open>format_9E v\<close>, which is one digit, a point, nine digits, \<open>E\<close>, a sign and at least two
  digits (\<open>is_sci9\<close>); the tokens of a line are the texts of its group. A line ends with
  a line break if and only if its group holds five values: a shorter last group is not
  followed by a line break.
\<close>

theorem writer_layout:
  assumes "shape charge = (n1, n2, n3)"
  shows "write_charge header charge = header @ concat (map body_line (groups5 (field_values charge))) \<and>
    length (field_values charge) = n1 * n2 * n3 \<and>
    (\<forall>x y z. x < n1 \<and> y < n2 \<and> z < n3 \<longrightarrow>
       field_values charge ! (x + n1 * (y + n2 * z)) = cell charge (x, y, z)) \<and>
    length (groups5 (field_values charge)) = (n1 * n2 * n3 + 4) div 5 \<and>
    (\<forall>i < length (groups5 (field_values charge)).
       groups5 (field_values charge) ! i = take 5 (drop (5 * i) (field_values charge)) \<and>
       split_ws (body_line (groups5 (field_values charge) ! i)) =
         map format_9E (groups5 (field_values charge) ! i) \<and>
       (last (body_line (groups5 (field_values charge) ! i)) = CHR 0x0A \<longleftrightarrow>
          length (groups5 (field_values charge) ! i) = 5)) \<and>
    (\<forall>v. is_sci9 (format_9E v))"
proof -
  let ?vs = "field_values charge"
  have 1: "write_charge header charge = header @ concat (map body_line (groups5 ?vs))"
    by (simp only: write_charge_alt write_values_concat)
  have 2: "length ?vs = n1 * n2 * n3" using assms by (rule length_field_values)
  have 3: "?vs ! (x + n1 * (y + n2 * z)) = cell charge (x, y, z)"
    if "x < n1 \<and> y < n2 \<and> z < n3" for x y z
  proof -
    from that have b: "x < n1" "y < n2" "z < n3" by simp_all
    note i = loop_order_index [OF b]
    show ?thesis using field_values_nth [OF assms i(1)] by (simp only: i(2))
  qed
  have 4: "length (groups5 ?vs) = (n1 * n2 * n3 + 4) div 5"
    by (simp only: groups5_length 2)
  have 5: "groups5 ?vs ! i = take 5 (drop (5 * i) ?vs) \<and>
       split_ws (body_line (groups5 ?vs ! i)) = map format_9E (groups5 ?vs ! i) \<and>
       (last (body_line (groups5 ?vs ! i)) = CHR 0x0A \<longleftrightarrow> length (groups5 ?vs ! i) = 5)"
    if "i < length (groups5 ?vs)" for i
  proof -
    have "groups5 ?vs ! i \<in> set (groups5 ?vs)" using that by (rule nth_mem)
    then have "groups5 ?vs ! i \<noteq> []" using groups5_nonempty by blast
    then show ?thesis
      using groups5_nth [OF that] split_ws_body_line body_line_last by blast
  qed
  show ?thesis using 1 2 3 4 5 format_9E_is_sci9 by blast
qed

theorem writer_layout_witness:
  "write_charge ''# p\<newline>'' \<lparr>shape = (1, 1, 1), cells = [[[3 / 2]]]\<rparr> =
     ''# p\<newline>'' @ concat (map body_line (groups5 (field_values \<lparr>shape = (1, 1, 1), cells = [[[3 / 2]]]\<rparr>))) \<and>
   field_values \<lparr>shape = (1, 1, 1), cells = [[[3 / 2 :: real]]]\<rparr> ! 0 = 3 / 2 \<and>
   length (groups5 (field_values \<lparr>shape = (1, 1, 1), cells = [[[3 / 2 :: real]]]\<rparr>)) = 1"
proof -
  let ?A = "\<lparr>shape = (1, 1, 1), cells = [[[3 / 2]]]\<rparr> :: real ndarray"
  have s: "shape ?A = (1, 1, 1)" by simp
  note L = writer_layout [OF s, of "''# p\<newline>''"]
  have 1: "write_charge ''# p\<newline>'' ?A = ''# p\<newline>'' @ concat (map body_line (groups5 (field_values ?A)))"
    using L by (elim conjE)
  have "\<forall>x y z. x < 1 \<and> y < 1 \<and> z < 1 \<longrightarrow>
      field_values ?A ! (x + 1 * (y + 1 * z)) = cell ?A (x, y, z)"
    using L by (elim conjE)
  then have "field_values ?A ! (0 + 1 * (0 + 1 * 0)) = cell ?A (0, 0, 0)" by blast
  then have 2: "field_values ?A ! 0 = 3 / 2" by (simp add: cell_def)
  have "length (groups5 (field_values ?A)) = (1 * 1 * 1 + 4) div 5"
    using L by (elim conjE)
  then have 3: "length (groups5 (field_values ?A)) = 1" by simp
  show ?thesis using 1 2 3 by (intro conjI)
qed

text \<open>
  The claim as stated also puts a line break after a last group of fewer than five
  values. A grid of one cell gives a text that ends with the digits of its value.
\<close>

theorem writer_final_newline_counterexample:
  "write_charge ''# p\<newline>'' \<lparr>shape = (1, 1, 1), cells = [[[0]]]\<rparr> = ''# p\<newline>  0.000000000E+00'' \<and>
   last (write_charge ''# p\<newline>'' \<lparr>shape = (1, 1, 1), cells = [[[0]]]\<rparr>) \<noteq> CHR 0x0A"
  by (simp add: write_charge_def loop_order_def cell_def format_9E_def sci_round_def
      exp_string_def digit_char_def dec_string.simps)

text \<open>
  Claim C10. A line is a header, and its tokens are skipped, exactly when its first
  token is the single character \<open>#\<close> (\<open>is_header\<close>); \<open>value_tokens\<close> are the tokens of
  all other lines, in order. Let every line of the file hold a token and every value
  token be read by \<^verbatim>\<open>float\<close> (\<open>line_ok\<close>). When the second line of the file, header or
  not, has at least four tokens of which the second, third and fourth are the integers
  \<open>n1\<close>, \<open>n2\<close>, \<open>n3\<close>, and the file has at least \<open>n1 * n2 * n3\<close> value tokens, the reader
  returns a grid of shape \<open>(n1, n2, n3)\<close> whose cell \<open>(x, y, z)\<close> is the value token number
  \<open>x + n1 * (y + n2 * z)\<close>.
\<close>

theorem reader_header_and_dimensions:
  assumes "file_lines content = l0 # l1 # rest"
    and "\<forall>l \<in> set (l0 # l1 # rest). line_ok pyfloat l"
    and "4 \<le> length (split_ws l1)"
    and "py_int (split_ws l1 ! 1) = Some (int n1)"
    and "py_int (split_ws l1 ! 2) = Some (int n2)"
    and "py_int (split_ws l1 ! 3) = Some (int n3)"
    and "n1 < 2 ^ 63" "n2 < 2 ^ 63" "n3 < 2 ^ 63"
    and "n1 * n2 * n3 \<le> length (value_tokens (l0 # l1 # rest))"
  shows "\<exists>charge. read_postqe_output_file pyfloat content = Inr charge \<and>
           shape charge = (n1, n2, n3) \<and>
           (\<forall>x y z. x < n1 \<and> y < n2 \<and> z < n3 \<longrightarrow>
              cell charge (x, y, z) =
                the (pyfloat (value_tokens (l0 # l1 # rest) ! (x + n1 * (y + n2 * z)))))"
proof -
  have nr: "read_nr (split_ws l1) = Inr (int n1, int n2, int n3)"
    using assms(3-9) by (rule read_nr_ok)
  from read_postqe_output_file_lines [OF assms(1,2) nr assms(10)] obtain charge where
    r: "read_postqe_output_file pyfloat content = Inr charge" "shape charge = (n1, n2, n3)"
    and c: "\<And>i. i < n1 * n2 * n3 \<Longrightarrow> cell charge (loop_order (n1, n2, n3) ! i) =
        the (pyfloat (value_tokens (l0 # l1 # rest) ! i))"
    by blast
  have "cell charge (x, y, z) = the (pyfloat (value_tokens (l0 # l1 # rest) ! (x + n1 * (y + n2 * z))))"
    if "x < n1 \<and> y < n2 \<and> z < n3" for x y z
  proof -
    from that have b: "x < n1" "y < n2" "z < n3" by simp_all
    note i = loop_order_index [OF b]
    show ?thesis using c [OF i(1)] by (simp only: i(2))
  qed
  then show ?thesis using r by blast
qed

text \<open>
  In the file below the first line is a header and the second is not: the second line
  gives the dimensions \<open>(1, 2, 1)\<close> and its tokens are the values.
\<close>

theorem reader_header_and_dimensions_witness:
  "\<exists>charge. read_postqe_output_file decimal_float ''# 9 9\<newline>7 1 2 1\<newline>'' = Inr charge \<and>
      shape charge = (1, 2, 1) \<and> cell charge (0, 0, 0) = 7 \<and> cell charge (0, 1, 0) = 1"
proof -
  let ?C = "''# 9 9\<newline>7 1 2 1\<newline>''"
  let ?l0 = "''# 9 9\<newline>''" and ?l1 = "''7 1 2 1\<newline>''"
  have l: "file_lines ?C = ?l0 # ?l1 # []" by simp
  have s: "split_ws ?l1 = [''7'', ''1'', ''2'', ''1'']" by (simp add: is_space_def)
  have ok: "\<forall>l \<in> set (?l0 # ?l1 # []). line_ok decimal_float l" by (simp add: eval_tokens)
  have t: "value_tokens (?l0 # ?l1 # []) = [''7'', ''1'', ''2'', ''1'']"
    by (simp add: is_header_def is_space_def)
  have "\<exists>charge. read_postqe_output_file decimal_float ?C = Inr charge \<and>
           shape charge = (1, 2, 1) \<and>
           (\<forall>x y z. x < 1 \<and> y < 2 \<and> z < 1 \<longrightarrow>
              cell charge (x, y, z) =
                the (decimal_float (value_tokens (?l0 # ?l1 # []) ! (x + 1 * (y + 2 * z)))))"
    by (rule reader_header_and_dimensions [OF l ok]) (simp_all add: s t eval_tokens)
  then obtain charge where r: "read_postqe_output_file decimal_float ?C = Inr charge"
      "shape charge = (1, 2, 1)"
    and c: "\<forall>x y z. x < 1 \<and> y < 2 \<and> z < 1 \<longrightarrow>
              cell charge (x, y, z) =
                the (decimal_float (value_tokens (?l0 # ?l1 # []) ! (x + 1 * (y + 2 * z))))"
    by (elim exE conjE)
  have "(0::nat) < 1 \<and> (0::nat) < 2 \<and> (0::nat) < 1" by simp
  with c have "cell charge (0, 0, 0) =
      the (decimal_float (value_tokens (?l0 # ?l1 # []) ! (0 + 1 * (0 + 2 * 0))))" by blast
  then have c0: "cell charge (0, 0, 0) = 7" unfolding t by (simp add: eval_tokens)
  have "(0::nat) < 1 \<and> (1::nat) < 2 \<and> (0::nat) < 1" by simp
  with c have "cell charge (0, 1, 0) =
      the (decimal_float (value_tokens (?l0 # ?l1 # []) ! (0 + 1 * (1 + 2 * 0))))" by blast
  then have c1: "cell charge (0, 1, 0) = 1" unfolding t by (simp add: eval_tokens)
  show ?thesis using r c0 c1 by blast
qed




text \<open>
  Claim C2. Write a field of positive dimensions \<open>(n1, n2, n3)\<close> under a header of
  lines that each begin with the token \<open>#\<close>, the second of which carries \<open>n1\<close>, \<open>n2\<close>, \<open>n3\<close>
  as its second, third and fourth token. Let \<^verbatim>\<open>float\<close> read the text of each value as the
  number it denotes, rounded by \<open>rd\<close> with a relative error of at most \<open>u\<close> (nothing for
  an exact reading, \<open>2^-53\<close> for binary64 in its normal range). Then reading the text
  back returns a field of the same shape, and each of its cells is the original value
  rounded to ten significant digits and read: it differs from the original by at most
  \<open>5 * 10^-10 + u (1 + 5 * 10^-10)\<close> times the size of the original, which for an exact
  reading is half a unit of the ninth digit after the point. The exact decimal reading
  \<open>decimal_float\<close> reads every text \<open>format_9E v\<close> as \<open>sci_value v\<close>
  (\<open>decimal_float_format_9E\<close>).
\<close>

theorem codec_round_trip:
  assumes "shape charge = (n1, n2, n3)" "0 < n1" "0 < n2" "0 < n3"
    and "header = concat (map (\<lambda>l. l @ [CHR 0x0A]) (h0 # h1 # hs))"
    and "\<forall>l \<in> set (h0 # h1 # hs). CHR 0x0A \<notin> set l \<and> is_header l"
    and "4 \<le> length (split_ws h1)"
    and "py_int (split_ws h1 ! 1) = Some (int n1)"
    and "py_int (split_ws h1 ! 2) = Some (int n2)"
    and "py_int (split_ws h1 ! 3) = Some (int n3)"
    and "n1 < 2 ^ 63" "n2 < 2 ^ 63" "n3 < 2 ^ 63"
    and "\<forall>q. in_shape (n1, n2, n3) q \<longrightarrow>
           pyfloat (format_9E (cell charge q)) = Some (rd (sci_value (cell charge q)))"
    and "\<forall>x. \<bar>rd x - x\<bar> \<le> u * \<bar>x\<bar>"
  shows "\<exists>r. read_postqe_output_file pyfloat (write_charge header charge) = Inr r \<and>
           wf_array r \<and> shape r = (n1, n2, n3) \<and>
           (\<forall>q. in_shape (n1, n2, n3) q \<longrightarrow>
              cell r q = rd (sci_value (cell charge q)) \<and>
              \<bar>cell r q - cell charge q\<bar> \<le> (5 / 10 ^ 10 + u * (1 + 5 / 10 ^ 10)) * \<bar>cell charge q\<bar>)"
proof -
  let ?nl = "\<lambda>l. l @ [CHR 0x0A]"
  let ?vs = "field_values charge"
  let ?N = "n1 * n2 * n3"
  let ?l0 = "?nl h0" and ?l1 = "?nl h1"
  let ?rest = "map ?nl hs @ file_lines (write_values 0 ?vs)"
  have len: "length ?vs = ?N" using assms(1) by (rule length_field_values)
  have vs: "?vs ! i = cell charge (loop_order (n1, n2, n3) ! i)" if "i < ?N" for i
    using assms(1) that by (rule field_values_nth)
  have lines: "file_lines (write_charge header charge) = ?l0 # ?l1 # ?rest"
    unfolding write_charge_alt assms(5)
    using file_lines_header [of "h0 # h1 # hs" "write_values 0 ?vs"] assms(6) by simp
  have pf: "pyfloat (format_9E (cell charge q)) = Some (rd (sci_value (cell charge q)))"
    if "in_shape (n1, n2, n3) q" for q
    using assms(14) that by blast
  have fl: "pyfloat (format_9E v) \<noteq> None" if "v \<in> set ?vs" for v
  proof -
    from that obtain i where i: "i < ?N" "v = ?vs ! i" using len by (metis in_set_conv_nth)
    then show ?thesis using vs [OF i(1)] pf [OF loop_order_in_shape [OF i(1)]] by simp
  qed
  have hdr: "\<forall>l \<in> set (map ?nl (h0 # h1 # hs)). is_header l"
    using assms(6) by (simp add: is_header_newline)
  have body_ok: "line_ok pyfloat l" if "l \<in> set (file_lines (write_values 0 ?vs))" for l
  proof -
    from that obtain g where g: "g \<in> set (groups5 ?vs)" "l = body_line g"
      by (auto simp: write_values_lines)
    have "set g \<subseteq> set ?vs" using g(1) groups5_concat [of ?vs] by (metis concat_eq_Nil_conv set_concat UN_upper)
    then show ?thesis
      unfolding g(2) using groups5_nonempty [OF g(1)] fl by (intro body_line_ok) auto
  qed
  have ok: "\<forall>l \<in> set (?l0 # ?l1 # ?rest). line_ok pyfloat l"
    using hdr body_ok by (auto intro: is_header_line_ok)
  have toks: "value_tokens (?l0 # ?l1 # ?rest) = map format_9E ?vs"
  proof -
    have "value_tokens (map ?nl (h0 # h1 # hs)) = []" using hdr by (rule value_tokens_headers)
    moreover have "?l0 # ?l1 # ?rest = map ?nl (h0 # h1 # hs) @ file_lines (write_values 0 ?vs)"
      by simp
    ultimately show ?thesis
      by (simp only: value_tokens_simps(3) value_tokens_write_values append_Nil)
  qed
  have nr: "read_nr (split_ws ?l1) = Inr (int n1, int n2, int n3)"
    unfolding split_ws_newline using assms(7-13) by (rule read_nr_ok)
  have enough: "?N \<le> length (value_tokens (?l0 # ?l1 # ?rest))"
    unfolding toks using len by simp
  from read_postqe_output_file_lines [OF lines ok nr enough] obtain r where
    r: "read_postqe_output_file pyfloat (write_charge header charge) = Inr r" "wf_array r"
      "shape r = (n1, n2, n3)"
    and c: "\<And>i. i < ?N \<Longrightarrow> cell r (loop_order (n1, n2, n3) ! i) =
        the (pyfloat (value_tokens (?l0 # ?l1 # ?rest) ! i))"
    by blast
  have "cell r q = rd (sci_value (cell charge q))" if q: "in_shape (n1, n2, n3) q" for q
  proof -
    obtain x y z where xyz: "q = (x, y, z)" by (cases q)
    from q have b: "x < n1" "y < n2" "z < n3" by (simp_all add: in_shape_def xyz)
    note i = loop_order_index [OF b]
    have "cell r q = the (pyfloat (map format_9E ?vs ! (x + n1 * (y + n2 * z))))"
      using c [OF i(1)] unfolding toks i(2) xyz .
    also have "map format_9E ?vs ! (x + n1 * (y + n2 * z)) = format_9E (cell charge q)"
      using i(1) len vs [OF i(1)] by (simp add: i(2) xyz)
    finally show ?thesis using pf [OF q] by simp
  qed
  then show ?thesis using r rounded_read_close [OF assms(15)] by auto
qed

theorem codec_round_trip_witness:
  "\<exists>r. read_postqe_output_file decimal_float
         (write_charge ''# p\<newline># 2 1 1\<newline>''
            \<lparr>shape = (2, 1, 1), cells = [[[3 / 2]], [[- 1 / 3]]]\<rparr>) = Inr r \<and>
       shape r = (2, 1, 1) \<and> cell r (0, 0, 0) = 3 / 2 \<and>
       \<bar>cell r (1, 0, 0) - (- 1 / 3)\<bar> \<le> 5 / 10 ^ 10 * \<bar>- 1 / 3 :: real\<bar>"
proof -
  let ?A = "\<lparr>shape = (2, 1, 1), cells = [[[3 / 2]], [[- 1 / 3]]]\<rparr> :: real ndarray"
  have v1: "sci_value (3 / 2) = 3 / 2" by (simp add: sci_value_def eval_format)
  have fl: "\<forall>q. in_shape (2, 1, 1) q \<longrightarrow>
      decimal_float (format_9E (cell ?A q)) = Some ((\<lambda>x. x) (sci_value (cell ?A q)))"
    by (simp add: decimal_float_format_9E)
  have rd: "\<forall>x :: real. \<bar>(\<lambda>x. x) x - x\<bar> \<le> 0 * \<bar>x\<bar>" by simp
  have h: "''# p\<newline># 2 1 1\<newline>'' = concat (map (\<lambda>l. l @ [CHR 0x0A]) [''# p'', ''# 2 1 1''])"
    by simp
  have hd: "\<forall>l \<in> set [''# p'', ''# 2 1 1'']. CHR 0x0A \<notin> set l \<and> is_header l"
    by (simp add: eval_tokens)
  have s: "split_ws ''# 2 1 1'' = [''#'', ''2'', ''1'', ''1'']" by (simp add: is_space_def)
  have "\<exists>r. read_postqe_output_file decimal_float (write_charge ''# p\<newline># 2 1 1\<newline>'' ?A) = Inr r \<and>
           wf_array r \<and> shape r = (2, 1, 1) \<and>
           (\<forall>q. in_shape (2, 1, 1) q \<longrightarrow>
              cell r q = (\<lambda>x. x) (sci_value (cell ?A q)) \<and>
              \<bar>cell r q - cell ?A q\<bar> \<le> (5 / 10 ^ 10 + 0 * (1 + 5 / 10 ^ 10)) * \<bar>cell ?A q\<bar>)"
    by (rule codec_round_trip [where ?h0.0 = "''# p''" and ?h1.0 = "''# 2 1 1''" and hs = "[]",
          OF _ _ _ _ h hd _ _ _ _ _ _ _ fl rd])
       (simp_all add: s eval_tokens)
  then obtain r where r: "read_postqe_output_file decimal_float (write_charge ''# p\<newline># 2 1 1\<newline>'' ?A) = Inr r"
    "shape r = (2, 1, 1)"
    and c: "\<forall>q. in_shape (2, 1, 1) q \<longrightarrow>
              cell r q = (\<lambda>x. x) (sci_value (cell ?A q)) \<and>
              \<bar>cell r q - cell ?A q\<bar> \<le> (5 / 10 ^ 10 + 0 * (1 + 5 / 10 ^ 10)) * \<bar>cell ?A q\<bar>"
    by (elim exE conjE)
  have i0: "in_shape (2, 1, 1) (0, 0, 0)" and i1: "in_shape (2, 1, 1) (1, 0, 0)"
    by (simp_all add: in_shape_def)
  from c i0 have "cell r (0, 0, 0) = (\<lambda>x. x) (sci_value (cell ?A (0, 0, 0)))" by blast
  then have c0: "cell r (0, 0, 0) = 3 / 2" by (simp add: cell_def v1)
  from c i1 have "\<bar>cell r (1, 0, 0) - cell ?A (1, 0, 0)\<bar>
      \<le> (5 / 10 ^ 10 + 0 * (1 + 5 / 10 ^ 10)) * \<bar>cell ?A (1, 0, 0)\<bar>"
    by blast
  then have c1: "\<bar>cell r (1, 0, 0) - (- 1 / 3)\<bar> \<le> 5 / 10 ^ 10 * \<bar>- 1 / 3 :: real\<bar>"
    by (simp add: cell_def)
  show ?thesis using r c0 c1 by blast
qed

section \<open>Claims about the pseudopotential reader\<close>

text \<open>
  Claim C8. \<^verbatim>\<open>read_pseudo_file\<close> hands to the parser the lines of the file after
  \<^verbatim>\<open>replace('&input','&amp;input')\<close>, and these are the lines of the rewritten text: an
  occurrence never spans two lines. Every occurrence of \<open>&input\<close>, wherever it stands,
  becomes \<open>&amp;input\<close>, the text before it and the text after it being rewritten in
  the same way; a text without an occurrence is left as it is; and the rewritten text
  holds no occurrence of \<open>&input\<close> any more.

  So an input that is well-formed but for its \<open>&input\<close> parses successfully. Whatever
  the parser: when it accepts the text in which every \<open>&input\<close> is written
  \<open>&amp;input\<close>, the reader gets the tree of that text from it and goes on to build
  the dictionary from the tree. In particular for the document of a well-formed tree
  \<open>e\<close> in which the ampersand of every \<open>&input\<close> of the character data was left
  unescaped: the rewriting gives the document of \<open>e\<close> with all its character data
  escaped, so a parser that accepts this well-formed document makes the reader parse
  the unescaped one; and \<open>xml_elements\<close> does accept it, with the tree \<open>e\<close>, so with this
  parser the reader builds the dictionary from \<open>e\<close>.
\<close>

theorem pseudo_input_rewrite:
  "read_pseudo_file fromstringlist pyfloat content =
     read_pseudo_tree pyfloat
       (fromstringlist (map (replace ''&input'' ''&amp;input'') (file_lines content))) \<and>
   map (replace ''&input'' ''&amp;input'') (file_lines content) =
     file_lines (replace ''&input'' ''&amp;input'' content) \<and>
   (\<forall>a b. replace ''&input'' ''&amp;input'' (a @ ''&input'' @ b) =
      replace ''&input'' ''&amp;input'' a @ ''&amp;input'' @ replace ''&input'' ''&amp;input'' b) \<and>
   (\<forall>s. \<not> contains ''&input'' s \<longrightarrow> replace ''&input'' ''&amp;input'' s = s) \<and>
   (\<forall>s. \<not> contains ''&input'' (replace ''&input'' ''&amp;input'' s)) \<and>
   (\<forall>psroot. fromstringlist (file_lines (replace ''&input'' ''&amp;input'' content)) = Some psroot \<longrightarrow>
      read_pseudo_file fromstringlist pyfloat content = extract_pseudo pyfloat psroot) \<and>
   (\<forall>e. wf_elem e \<longrightarrow>
      replace ''&input'' ''&amp;input'' (xml_document xml_escape_but_input e) =
        xml_document xml_escape e \<and>
      (\<forall>psroot. fromstringlist (file_lines (xml_document xml_escape e)) = Some psroot \<longrightarrow>
         read_pseudo_file fromstringlist pyfloat (xml_document xml_escape_but_input e) =
           extract_pseudo pyfloat psroot) \<and>
      xml_elements (file_lines (xml_document xml_escape e)) = Some e \<and>
      read_pseudo_file xml_elements pyfloat (xml_document xml_escape_but_input e) =
        extract_pseudo pyfloat e)"
proof (intro conjI allI impI)
  show "\<not> contains ''&input'' (replace ''&input'' ''&amp;input'' s)" for s
    by (rule rewrite_input_removes)
  show "read_pseudo_file fromstringlist pyfloat content =
     read_pseudo_tree pyfloat
       (fromstringlist (map (replace ''&input'' ''&amp;input'') (file_lines content)))"
    by (simp add: read_pseudo_file_def)
  show "map (replace ''&input'' ''&amp;input'') (file_lines content) =
     file_lines (replace ''&input'' ''&amp;input'' content)"
    by (rule rewrite_input_lines)
  show "replace ''&input'' ''&amp;input'' (a @ ''&input'' @ b) =
      replace ''&input'' ''&amp;input'' a @ ''&amp;input'' @ replace ''&input'' ''&amp;input'' b"
    for a b
    by (rule replace_occurrence) simp
  show "replace ''&input'' ''&amp;input'' s = s" if "\<not> contains ''&input'' s" for s
    using that by (intro replace_absent) simp_all
  have parsed: "read_pseudo_file p pyfloat c = extract_pseudo pyfloat t"
    if "p (file_lines (replace ''&input'' ''&amp;input'' c)) = Some t" for p c t
    using that by (simp add: read_pseudo_file_def read_pseudo_tree_def rewrite_input_lines)
  show "read_pseudo_file fromstringlist pyfloat content = extract_pseudo pyfloat psroot"
    if "fromstringlist (file_lines (replace ''&input'' ''&amp;input'' content)) = Some psroot" for psroot
    using that by (rule parsed)
  fix e
  assume wf: "wf_elem e"
  then show rw: "replace ''&input'' ''&amp;input'' (xml_document xml_escape_but_input e) =
        xml_document xml_escape e"
    by (rule rewrite_input_document)
  show "read_pseudo_file fromstringlist pyfloat (xml_document xml_escape_but_input e) =
           extract_pseudo pyfloat psroot"
    if "fromstringlist (file_lines (xml_document xml_escape e)) = Some psroot" for psroot
    using that by (intro parsed) (simp only: rw)
  show ok: "xml_elements (file_lines (xml_document xml_escape e)) = Some e"
    using wf by (rule xml_elements_document)
  show "read_pseudo_file xml_elements pyfloat (xml_document xml_escape_but_input e) =
        extract_pseudo pyfloat e"
    using ok by (intro parsed) (simp only: rw)
qed

text \<open>
  A pseudopotential file with the \<open>&input\<close> of the generation input in its \<^verbatim>\<open>PP_INFO\<close>,
  read with the parser \<open>xml_elements\<close>: the file as it stands is not well-formed, and
  the reader parses it and returns its dictionary, with the \<open>&input\<close> in the text of
  \<^verbatim>\<open>PP_INFO\<close>.
\<close>

theorem pseudo_input_rewrite_witness:
  "xml_elements (file_lines ''<UPF>\<newline><PP_INFO>\<newline>&input\<newline></PP_INFO><PP_HEADER></PP_HEADER><PP_MESH><PP_R>1 2</PP_R><PP_RAB>3 4</PP_RAB></PP_MESH></UPF>'') = None \<and>
   read_pseudo_file xml_elements decimal_float
     ''<UPF>\<newline><PP_INFO>\<newline>&input\<newline></PP_INFO><PP_HEADER></PP_HEADER><PP_MESH><PP_R>1 2</PP_R><PP_RAB>3 4</PP_RAB></PP_MESH></UPF>'' =
   Inr [(''PP_INFO'', PDict [(''INFO'', PStr ''\<newline>&input\<newline>''), (''PP_INPUT'', PStr [])]),
        (''PP_HEADER'', PDict []),
        (''PP_MESH'', PDict [(''PP_R'', PArr [1, 2]), (''PP_RAB'', PArr [3, 4])]),
        (''PP_LOCAL'', PNone), (''PP_RHOATOM'', PNone), (''PP_NONLOCAL'', PNone)]"
proof -
  let ?raw = "''<UPF>\<newline><PP_INFO>\<newline>&input\<newline></PP_INFO><PP_HEADER></PP_HEADER><PP_MESH><PP_R>1 2</PP_R><PP_RAB>3 4</PP_RAB></PP_MESH></UPF>''"
  let ?root = "Elem ''UPF'' [] (Some ''\<newline>'')
     [Elem ''PP_INFO'' [] (Some ''\<newline>&input\<newline>'') [], Elem ''PP_HEADER'' [] None [],
      Elem ''PP_MESH'' [] None [Elem ''PP_R'' [] (Some ''1 2'') [], Elem ''PP_RAB'' [] (Some ''3 4'') []]]"
  have wf: "wf_elem ?root"
    by (simp add: is_name_char_def is_name_start_def is_xml_char_def is_xml_space_def)
  have raw: "xml_document xml_escape_but_input ?root = ?raw"
    by (simp add: escape_char_def)
  have "\<forall>e. wf_elem e \<longrightarrow>
      replace ''&input'' ''&amp;input'' (xml_document xml_escape_but_input e) =
        xml_document xml_escape e \<and>
      (\<forall>psroot. xml_elements (file_lines (xml_document xml_escape e)) = Some psroot \<longrightarrow>
         read_pseudo_file xml_elements decimal_float (xml_document xml_escape_but_input e) =
           extract_pseudo decimal_float psroot) \<and>
      xml_elements (file_lines (xml_document xml_escape e)) = Some e \<and>
      read_pseudo_file xml_elements decimal_float (xml_document xml_escape_but_input e) =
        extract_pseudo decimal_float e"
    using pseudo_input_rewrite [of xml_elements decimal_float ?raw] by (elim conjE)
  then have "read_pseudo_file xml_elements decimal_float (xml_document xml_escape_but_input ?root) =
        extract_pseudo decimal_float ?root"
    using wf by blast
  then have "read_pseudo_file xml_elements decimal_float ?raw = extract_pseudo decimal_float ?root"
    by (simp only: raw)
  moreover have "extract_pseudo decimal_float ?root =
     Inr [(''PP_INFO'', PDict [(''INFO'', PStr ''\<newline>&input\<newline>''), (''PP_INPUT'', PStr [])]),
        (''PP_HEADER'', PDict []),
        (''PP_MESH'', PDict [(''PP_R'', PArr [1, 2]), (''PP_RAB'', PArr [3, 4])]),
        (''PP_LOCAL'', PNone), (''PP_RHOATOM'', PNone), (''PP_NONLOCAL'', PNone)]"
    by (simp add: extract_pseudo_def find_child_def find_grandchild_def node_text_def float_array_def
        items_dict_def eval_tokens)
  moreover have "xml_elements (file_lines ?raw) = None"
    by (simp add: eval_xml)
  ultimately show ?thesis by simp
qed

text \<open>
  Claim C6, as the code has it. When the parser of the library rejects the text,
  \<^verbatim>\<open>read_pseudo_file\<close> catches its \<^verbatim>\<open>ParseError\<close> and returns the empty dictionary;
  when the parsed tree has no \<^verbatim>\<open>PP_INFO\<close> or no \<^verbatim>\<open>PP_HEADER\<close> node it fails with an
  \<^verbatim>\<open>AttributeError\<close>; and whatever the input, no \<^verbatim>\<open>ParseError\<close> leaves the function.
\<close>

theorem pseudo_reader_failures:
  "read_pseudo_file fromstringlist pyfloat content =
     read_pseudo_tree pyfloat
       (fromstringlist (map (replace ''&input'' ''&amp;input'') (file_lines content))) \<and>
   read_pseudo_tree pyfloat None = Inr [] \<and>
   (\<forall>psroot. find_child ''PP_INFO'' psroot = None \<or> find_child ''PP_HEADER'' psroot = None \<longrightarrow>
      read_pseudo_tree pyfloat (Some psroot) = Inl AttributeError) \<and>
   read_pseudo_tree pyfloat parsed \<noteq> Inl ParseError"
proof (intro conjI allI impI)
  show "read_pseudo_file fromstringlist pyfloat content =
     read_pseudo_tree pyfloat
       (fromstringlist (map (replace ''&input'' ''&amp;input'') (file_lines content)))"
    by (simp add: read_pseudo_file_def)
  show "read_pseudo_tree pyfloat None = Inr []" by (simp add: read_pseudo_tree_def)
  show "read_pseudo_tree pyfloat (Some psroot) = Inl AttributeError"
    if "find_child ''PP_INFO'' psroot = None \<or> find_child ''PP_HEADER'' psroot = None" for psroot
    using that extract_pseudo_no_info extract_pseudo_no_header
    by (auto simp: read_pseudo_tree_def)
  show "read_pseudo_tree pyfloat parsed \<noteq> Inl ParseError"
  proof (cases parsed)
    case None
    then show ?thesis by (simp add: read_pseudo_tree_def)
  next
    case (Some psroot)
    then show ?thesis
      using benign_extract_pseudo [of pyfloat psroot] by (auto simp: read_pseudo_tree_def benign_def)
  qed
qed

theorem pseudo_reader_failures_witness:
  "read_pseudo_tree decimal_float
     (Some (Elem ''UPF'' [] None [Elem ''PP_INFO'' [] (Some ''generated'') []])) = Inl AttributeError"
proof -
  let ?root = "Elem ''UPF'' [] None [Elem ''PP_INFO'' [] (Some ''generated'') []]"
  have "\<forall>psroot. find_child ''PP_INFO'' psroot = None \<or> find_child ''PP_HEADER'' psroot = None \<longrightarrow>
      read_pseudo_tree decimal_float (Some psroot) = Inl AttributeError"
    using pseudo_reader_failures [of "\<lambda>l. None" decimal_float "[]" None] by (elim conjE)
  moreover have "find_child ''PP_INFO'' ?root = None \<or> find_child ''PP_HEADER'' ?root = None"
    by (simp add: find_child_def)
  ultimately show ?thesis by blast
qed

text \<open>
  The claim as stated has the reader fail on a text that the parser rejects. The text
  \<open><UPF>\<close>, whose root element is never closed, is such a text: with the verdict of
  the parser the reader returns the empty dictionary.
\<close>

theorem pseudo_reader_empty_result_counterexample:
  "read_pseudo_tree decimal_float None = Inr [] \<and>
   read_pseudo_file (\<lambda>pslines. None) decimal_float ''<UPF>'' = Inr []"
  by (simp add: read_pseudo_tree_def read_pseudo_file_def)

end
